theory Spec2Isabelle
  imports Main "HOL-Library.Word"
begin

section \<open>Charset detection: \<open>agi::charset::Detect\<close> (libaegisub/common/charset.cpp)\<close>

subsection \<open>The byte source\<close>

type_synonym byte = "8 word"

text \<open>
  \<open>agi::read_file_mapping\<close> throws when the file cannot be opened or a range cannot be
  mapped; \<open>Detect\<close> has no handler, so the exception ends the call.
\<close>

datatype io_error = OpenError | ReadError

text \<open>
  Modelled from the spec: \<open>agi::read_file_mapping\<close> (libaegisub/file_mapping.h) is not
  among the sources. The spec gives it a total size and \<open>read(offset, length)\<close>, which
  returns the \<open>length\<close> bytes at \<open>offset\<close> and fails if \<open>offset + length\<close> exceeds the
  size. \<open>fm_fails\<close> are the ranges whose mapping fails for any other reason.
\<close>

record file_mapping =
  fm_data :: "byte list"
  fm_fails :: "nat \<Rightarrow> nat \<Rightarrow> bool"

text \<open>Modelled from the spec: \<open>size()\<close>, the total size of the source.\<close>

definition fm_size :: "file_mapping \<Rightarrow> nat" where
  "fm_size fp = length (fm_data fp)"

text \<open>
  Modelled from the spec: \<open>read(offset, length)\<close>, the \<open>length\<close> bytes at \<open>offset\<close>, or
  a failure (an exception in the source) if the range exceeds the size or cannot be
  mapped.
\<close>

definition fm_read :: "file_mapping \<Rightarrow> nat \<Rightarrow> nat \<Rightarrow> io_error + byte list" where
  "fm_read fp off len =
     (if length (fm_data fp) < off + len \<or> fm_fails fp off len then Inl ReadError
      else Inr (take len (drop off (fm_data fp))))"

text \<open>A file with the content \<open>bs\<close> that opens and whose every in-range read succeeds.\<close>

definition mapping_of :: "byte list \<Rightarrow> file_mapping" where
  "mapping_of bs = \<lparr>fm_data = bs, fm_fails = (\<lambda>off len. False)\<rparr>"

definition readable :: "byte list \<Rightarrow> io_error + file_mapping" where
  "readable bs = Inr (mapping_of bs)"

subsection \<open>Magic bytes (charset.cpp, lines 29-43)\<close>

text \<open>
  C's \<open>strncmp\<close>: at most \<open>n\<close> characters are compared, as unsigned bytes, and nothing
  after a NUL that both strings share. The result is \<open>None\<close> where the comparison would
  run past the end of an array.
\<close>

fun strncmp :: "byte list \<Rightarrow> byte list \<Rightarrow> nat \<Rightarrow> int option" where
  "strncmp s1 s2 0 = Some 0"
| "strncmp (a # s1) (b # s2) (Suc n) =
     (if a \<noteq> b then Some (if a < b then - 1 else 1)
      else if a = 0 then Some 0
      else strncmp s1 s2 n)"
| "strncmp s1 s2 (Suc n) = None"

text \<open>The string literals of the source, each with its terminating NUL.\<close>

definition lit_utf8 :: "byte list" where "lit_utf8 = [0xEF, 0xBB, 0xBF, 0]"
definition lit_utf32be :: "byte list" where "lit_utf32be = [0x00, 0x00, 0xFE, 0xFF, 0]"
definition lit_utf32le :: "byte list" where "lit_utf32le = [0xFF, 0xFE, 0x00, 0x00, 0]"
definition lit_utf16be :: "byte list" where "lit_utf16be = [0xFE, 0xFF, 0]"
definition lit_utf16le :: "byte list" where "lit_utf16le = [0xFF, 0xFE, 0]"
definition lit_ebml :: "byte list" where "lit_ebml = [0x1A, 0x45, 0xDF, 0xA3, 0]"

definition check_magic :: "byte list \<Rightarrow> string option" where
  "check_magic header =
     (if strncmp header lit_utf8 3 = Some 0 then Some ''utf-8''
      else if strncmp header lit_utf32be 4 = Some 0 then Some ''utf-32be''
      else if strncmp header lit_utf32le 4 = Some 0 then Some ''utf-32le''
      else if strncmp header lit_utf16be 2 = Some 0 then Some ''utf-16be''
      else if strncmp header lit_utf16le 2 = Some 0 then Some ''utf-16le''
      else if strncmp header lit_ebml 4 = Some 0 then Some ''binary''
      else None)"

subsection \<open>The per-byte step (lines 64-92)\<close>

text \<open>
  The counters are \<open>uint64_t\<close> in the source and \<open>nat\<close> here: the scan runs only on
  files of at most 100 MiB, and lemma \<open>counters_bounded\<close> below bounds every counter by
  twice the file size plus one, far below \<open>2 ^ 64\<close>. \<open>ud_data\<close> is what has been handed
  to \<open>uchardet_handle_data\<close>, one entry per call.
\<close>

record detection_state =
  offset :: nat
  binaryish :: nat
  utf8_errors :: nat
  utf8_cont_bytes :: int
  ud_data :: "byte list list"

definition is_binaryish :: "byte \<Rightarrow> bool" where
  "is_binaryish c \<longleftrightarrow> c < 32 \<and> (c \<noteq> 0x0D \<and> c \<noteq> 0x0A \<and> c \<noteq> 0x09)"

text \<open>\<open>std::countl_one\<close> on an \<open>unsigned char\<close>: the number of set bits from bit 7 down.\<close>

definition countl_one :: "byte \<Rightarrow> int" where
  "countl_one c = int (length (takeWhile (bit c) [7, 6, 5, 4, 3, 2, 1, 0]))"

definition scan_byte :: "byte \<Rightarrow> detection_state \<Rightarrow> detection_state" where
  "scan_byte c st =
     (let st1 = (if is_binaryish c then st\<lparr>binaryish := binaryish st + 1\<rparr> else st);
          l_ones = countl_one c
      in if utf8_cont_bytes st1 \<noteq> 0 \<and> l_ones = 1
         then st1\<lparr>utf8_cont_bytes := utf8_cont_bytes st1 - 1\<rparr>
         else
           let st2 = (if utf8_cont_bytes st1 \<noteq> 0
                      then st1\<lparr>utf8_cont_bytes := 0, utf8_errors := utf8_errors st1 + 1\<rparr>
                      else st1)
           in if l_ones > 4 then st2\<lparr>utf8_errors := utf8_errors st2 + 1\<rparr>
              else if l_ones > 1 then st2\<lparr>utf8_cont_bytes := l_ones - 1\<rparr>
              else if l_ones = 1 then st2\<lparr>utf8_errors := utf8_errors st2 + 1\<rparr>
              else st2)"

text \<open>The inner loop, \<open>for (size_t i = 0; i < read; ++i)\<close>, reading \<open>buf[i]\<close>.\<close>

definition scan_buf :: "byte list \<Rightarrow> nat \<Rightarrow> detection_state \<Rightarrow> detection_state" where
  "scan_buf buf read st = foldl (\<lambda>s i. scan_byte (buf ! i) s) st [0..<read]"

subsection \<open>The window loop (lines 56-97)\<close>

text \<open>
  The loop either leaves the function with a label or runs to the end of the file.
  Every \<open>fp.read(offset, length)\<close> the call issues is logged, in order, as
  \<open>(offset, length)\<close>.
\<close>

datatype loop_exit = Return string | Done detection_state

type_synonym read_log = "(nat \<times> nat) list"

function scan_loop ::
  "file_mapping \<Rightarrow> detection_state \<Rightarrow> read_log \<Rightarrow> read_log \<times> (io_error + loop_exit)" where
  "scan_loop fp st log =
     (if offset st < fm_size fp then
        let read = min 4096 (fm_size fp - offset st);
            log' = log @ [(offset st, read)]
        in case fm_read fp (offset st) read of
             Inl e \<Rightarrow> (log', Inl e)
           | Inr buf \<Rightarrow>
               let st1 = st\<lparr>ud_data := ud_data st @ [take read buf],
                            offset := offset st + read\<rparr>;
                   st2 = scan_buf buf read st1
               in if binaryish st2 > offset st2 div 8 then (log', Inr (Return ''binary''))
                  else scan_loop fp st2 log'
      else (log, Inr (Done st)))"
  by pat_completeness auto

termination
proof (relation "measure (\<lambda>(fp, st, log). fm_size fp - offset st)")
  show "wf (measure (\<lambda>(fp, st, log). fm_size fp - offset st))" by simp
next
  fix fp :: file_mapping and st :: detection_state and log :: read_log
    and x xa x2 xb xc
  assume a: "offset st < fm_size fp"
    and x: "x = min 4096 (fm_size fp - offset st)"
    and xb: "xb = st\<lparr>ud_data := ud_data st @ [take x x2], offset := offset st + x\<rparr>"
    and xc: "xc = scan_buf x2 x xb"
  have step: "offset (scan_byte c s) = offset s" for c s
    by (simp add: scan_byte_def Let_def)
  have "offset (foldl (\<lambda>s i. scan_byte (x2 ! i) s) s is) = offset s" for s "is"
    by (induction "is" arbitrary: s) (simp_all add: step)
  then have "offset xc = offset st + x" using xb xc by (simp add: scan_buf_def)
  moreover have "0 < x" using a x by simp
  ultimately show "((fp, xc, xa), (fp, st, log)) \<in> measure (\<lambda>(fp, st, log). fm_size fp - offset st)"
    using a by simp
qed

declare scan_loop.simps [simp del]

subsection \<open>\<open>Detect\<close>\<close>

definition initial_state :: detection_state where
  "initial_state =
     \<lparr>offset = 0, binaryish = 0, utf8_errors = 0, utf8_cont_bytes = 0, ud_data = []\<rparr>"

text \<open>Lines 98-101: a sequence still open at the end of the file is one more error.\<close>

definition end_of_stream :: "detection_state \<Rightarrow> detection_state" where
  "end_of_stream st =
     (if utf8_cont_bytes st \<noteq> 0 then st\<lparr>utf8_errors := utf8_errors st + 1\<rparr> else st)"

text \<open>
  The build with \<open>WITH_UCHARDET\<close> (lines 54-105). \<open>guess\<close> stands for uchardet: the
  label \<open>uchardet_get_charset\<close> gives after \<open>uchardet_data_end\<close>, as a function of the
  data handed over.
\<close>

definition detect_full ::
  "(byte list list \<Rightarrow> string) \<Rightarrow> file_mapping \<Rightarrow> read_log \<Rightarrow> read_log \<times> (io_error + string)" where
  "detect_full guess fp log =
     (case scan_loop fp initial_state log of
        (log', Inl e) \<Rightarrow> (log', Inl e)
      | (log', Inr (Return label)) \<Rightarrow> (log', Inr label)
      | (log', Inr (Done st)) \<Rightarrow>
          let st' = end_of_stream st
          in if utf8_errors st' < 5 then (log', Inr ''utf-8'')
             else (log', Inr (guess (ud_data st'))))"

text \<open>The build without \<open>WITH_UCHARDET\<close> (lines 107-116).\<close>

definition detect_minimal :: "file_mapping \<Rightarrow> read_log \<Rightarrow> read_log \<times> (io_error + string)" where
  "detect_minimal fp log =
     (let read = min 4096 (fm_size fp);
          log' = log @ [(0, read)]
      in case fm_read fp 0 read of
           Inl e \<Rightarrow> (log', Inl e)
         | Inr buf \<Rightarrow>
             let binaryish =
                   foldl (\<lambda>n i. if is_binaryish (buf ! i) then n + 1 else n) (0::nat) [0..<read]
             in if binaryish > read div 8 then (log', Inr ''binary'')
                else (log', Inr ''utf-8''))"

text \<open>
  The whole function. \<open>with_uchardet\<close> is the build flag \<open>WITH_UCHARDET\<close>; \<open>file\<close> is the
  outcome of constructing \<open>agi::read_file_mapping fp(file)\<close>. The result is the log of
  the reads issued and either the exception or the label returned.
\<close>

definition Detect_run ::
  "bool \<Rightarrow> (byte list list \<Rightarrow> string) \<Rightarrow> io_error + file_mapping
     \<Rightarrow> read_log \<times> (io_error + string)" where
  "Detect_run with_uchardet guess file =
     (case file of
        Inl e \<Rightarrow> ([], Inl e)
      | Inr fp \<Rightarrow>
          let rest = (\<lambda>log.
                if fm_size fp > 100 * 1024 * 1024 then (log, Inr ''binary'')
                else if with_uchardet then detect_full guess fp log
                else detect_minimal fp log)
          in if fm_size fp \<ge> 4 then
               (case fm_read fp 0 4 of
                  Inl e \<Rightarrow> ([(0, 4)], Inl e)
                | Inr header \<Rightarrow>
                    (case check_magic header of
                       Some label \<Rightarrow> ([(0, 4)], Inr label)
                     | None \<Rightarrow> rest [(0, 4)]))
             else rest [])"

definition Detect ::
  "bool \<Rightarrow> (byte list list \<Rightarrow> string) \<Rightarrow> io_error + file_mapping \<Rightarrow> io_error + string" where
  "Detect with_uchardet guess file = snd (Detect_run with_uchardet guess file)"

definition reads_issued ::
  "bool \<Rightarrow> (byte list list \<Rightarrow> string) \<Rightarrow> io_error + file_mapping \<Rightarrow> read_log" where
  "reads_issued with_uchardet guess file = fst (Detect_run with_uchardet guess file)"

subsection \<open>Notions used to state the properties\<close>

text \<open>A stand-in for uchardet that always answers \<open>label\<close>.\<close>

definition fixed_guess :: "string \<Rightarrow> byte list list \<Rightarrow> string" where
  "fixed_guess label ws = label"

text \<open>The number of control-like bytes of a stretch of the file.\<close>

definition control_count :: "byte list \<Rightarrow> nat" where
  "control_count bs = length (filter is_binaryish bs)"

text \<open>The two fields the UTF-8 automaton reads and writes.\<close>

definition utf8_part :: "detection_state \<Rightarrow> int \<times> nat" where
  "utf8_part st = (utf8_cont_bytes st, utf8_errors st)"

text \<open>
  The cumulative number of bytes processed after \<open>k\<close> windows of a file of \<open>n\<close> bytes,
  the number of windows such a file has, and whether the binary check trips after
  window \<open>k\<close>.
\<close>

definition window_end :: "nat \<Rightarrow> nat \<Rightarrow> nat" where
  "window_end n k = min (k * 4096) n"

definition window_count :: "nat \<Rightarrow> nat" where
  "window_count n = (n + 4095) div 4096"

definition trips_at :: "byte list \<Rightarrow> nat \<Rightarrow> bool" where
  "trips_at bs k \<longleftrightarrow>
     control_count (take (window_end (length bs) k) bs) > window_end (length bs) k div 8"

definition binary_trips :: "byte list \<Rightarrow> bool" where
  "binary_trips bs \<longleftrightarrow> (\<exists>k \<in> {1..window_count (length bs)}. trips_at bs k)"

text \<open>One turn of the window loop on a readable file with the content \<open>bs\<close>.\<close>

definition next_state :: "byte list \<Rightarrow> detection_state \<Rightarrow> detection_state" where
  "next_state bs st =
     (let read = min 4096 (length bs - offset st);
          buf = take read (drop (offset st) bs)
      in fold scan_byte buf (st\<lparr>ud_data := ud_data st @ [buf], offset := offset st + read\<rparr>))"

text \<open>
  A state agrees with the prefix of the file it has processed: the counters are those
  of one pass over that prefix.
\<close>

definition consistent :: "byte list \<Rightarrow> detection_state \<Rightarrow> bool" where
  "consistent bs st \<longleftrightarrow>
     offset st \<le> length bs \<and>
     binaryish st = control_count (take (offset st) bs) \<and>
     utf8_part st = utf8_part (fold scan_byte (take (offset st) bs) initial_state)"

text \<open>
  The states the window loop passes through, in order: the state before each window,
  the state after \<open>offset += read\<close>, and the state after each turn of the inner loop.
  The function follows \<open>scan_loop\<close> line by line and ends in the state in which the
  loop ends (lemmas \<open>scan_states_last\<close> and \<open>scan_states_last_return\<close>).
\<close>

function scan_states :: "file_mapping \<Rightarrow> detection_state \<Rightarrow> detection_state list" where
  "scan_states fp st =
     (if offset st < fm_size fp then
        let read = min 4096 (fm_size fp - offset st)
        in case fm_read fp (offset st) read of
             Inl e \<Rightarrow> [st]
           | Inr buf \<Rightarrow>
               let st1 = st\<lparr>ud_data := ud_data st @ [take read buf],
                            offset := offset st + read\<rparr>;
                   inner = map (\<lambda>n. scan_buf buf n st1) [0..<Suc read];
                   st2 = scan_buf buf read st1
               in if binaryish st2 > offset st2 div 8 then st # inner
                  else st # inner @ scan_states fp st2
      else [st])"
  by pat_completeness auto

termination
proof (relation "measure (\<lambda>(fp, st). fm_size fp - offset st)")
  show "wf (measure (\<lambda>(fp, st). fm_size fp - offset st))" by simp
next
  fix fp :: file_mapping and st :: detection_state and x x2 xa xb xc
  assume a: "offset st < fm_size fp"
    and x: "x = min 4096 (fm_size fp - offset st)"
    and xa: "xa = st\<lparr>ud_data := ud_data st @ [take x x2], offset := offset st + x\<rparr>"
    and xc: "xc = scan_buf x2 x xa"
  have step: "offset (scan_byte c s) = offset s" for c s
    by (simp add: scan_byte_def Let_def)
  have "offset (foldl (\<lambda>s i. scan_byte (x2 ! i) s) s is) = offset s" for s "is"
    by (induction "is" arbitrary: s) (simp_all add: step)
  then have "offset xc = offset st + x" using xa xc by (simp add: scan_buf_def)
  moreover have "0 < x" using a x by simp
  ultimately show "((fp, xc), (fp, st)) \<in> measure (\<lambda>(fp, st). fm_size fp - offset st)"
    using a by simp
qed

declare scan_states.simps [simp del]

text \<open>
  What holds of every state of the scan: the three parts of the invariant, and the
  bounds that keep the \<open>uint64_t\<close> counters of the source from wrapping around.
\<close>

definition scan_inv :: "file_mapping \<Rightarrow> detection_state \<Rightarrow> bool" where
  "scan_inv fp st \<longleftrightarrow>
     binaryish st \<le> offset st \<and> 0 \<le> utf8_cont_bytes st \<and> utf8_cont_bytes st \<le> 3 \<and>
     utf8_errors st \<le> 2 * offset st \<and> offset st \<le> fm_size fp"

text \<open>A file mapping on which exactly the read of \<open>l1\<close> bytes at \<open>o1\<close> fails.\<close>

definition fails_only :: "nat \<Rightarrow> nat \<Rightarrow> nat \<Rightarrow> nat \<Rightarrow> bool" where
  "fails_only o1 l1 off len \<longleftrightarrow> off = o1 \<and> len = l1"

text \<open>
  The signatures as the spec lists them (section 4.1), to be compared with
  \<open>check_magic\<close>: each is a byte-for-byte prefix of the header, and the first match wins.
\<close>

definition spec_signature :: "byte list \<Rightarrow> string option" where
  "spec_signature header =
     (if take 3 header = [0xEF, 0xBB, 0xBF] then Some ''utf-8''
      else if take 4 header = [0x00, 0x00, 0xFE, 0xFF] then Some ''utf-32be''
      else if take 4 header = [0xFF, 0xFE, 0x00, 0x00] then Some ''utf-32le''
      else if take 2 header = [0xFE, 0xFF] then Some ''utf-16be''
      else if take 2 header = [0xFF, 0xFE] then Some ''utf-16le''
      else if take 4 header = [0x1A, 0x45, 0xDF, 0xA3] then Some ''binary''
      else None)"

section \<open>Properties\<close>

subsection \<open>The magic bytes\<close>

lemma strncmp_Cons:
  "0 < n \<Longrightarrow> strncmp (a # s1) (b # s2) n =
     (if a \<noteq> b then Some (if a < b then - 1 else 1)
      else if a = 0 then Some 0 else strncmp s1 s2 (n - 1))"
  by (cases n) simp_all

lemmas magic_defs = check_magic_def lit_utf8_def lit_utf32be_def lit_utf32le_def
  lit_utf16be_def lit_utf16le_def lit_ebml_def

lemma check_magic_utf32le: "check_magic [0xFF, 0xFE, 0, 0] = Some ''utf-32le''"
  by (simp add: magic_defs strncmp_Cons)

lemma check_magic_bom8: "check_magic [0xEF, 0xBB, 0xBF, x] = Some ''utf-8''"
  by (simp add: magic_defs strncmp_Cons)

text \<open>
  \<open>strncmp\<close> stops at a NUL the two strings share, so the comparisons with the two
  UTF-32 literals look at fewer than 4 bytes: a header that starts with 00 compares
  equal to \<open>00 00 FE FF\<close>, and FF FE 00 followed by any byte to \<open>FF FE 00 00\<close>.
\<close>

lemma check_magic_leading_nul: "check_magic [0, b1, b2, b3] = Some ''utf-32be''"
  by (simp add: magic_defs strncmp_Cons)

lemma check_magic_utf32le_prefix: "check_magic [0xFF, 0xFE, 0, b3] = Some ''utf-32le''"
  by (simp add: magic_defs strncmp_Cons)

text \<open>
  So \<open>check_magic\<close> finds nothing exactly on the headers that carry none of the spec's
  signatures and do not start with 00.
\<close>

lemma take_3_Cons: "take 3 (a # b # c # xs) = [a, b, c]"
  by (simp add: eval_nat_numeral)

lemma take_2_Cons: "take 2 (a # b # xs) = [a, b]"
  by (simp add: eval_nat_numeral)

lemma take_4_Cons: "take 4 [a, b, c, d] = [a, b, c, d]"
  by simp

lemma check_magic_None_iff:
  "check_magic [a, b, c, d] = None \<longleftrightarrow> spec_signature [a, b, c, d] = None \<and> a \<noteq> 0"
  unfolding spec_signature_def take_3_Cons take_2_Cons take_4_Cons magic_defs
  by (simp add: strncmp_Cons)

lemma length_4: "length xs = 4 \<Longrightarrow> \<exists>a b c d. xs = [a, b, c, d]"
  by (auto simp: length_Suc_conv eval_nat_numeral)

lemma header_4:
  assumes "4 \<le> length bs"
  shows "\<exists>a b c d. take 4 bs = [a, b, c, d] \<and> hd bs = a"
proof -
  have "length (take 4 bs) = 4" using assms by simp
  then obtain a b c d where t: "take 4 bs = [a, b, c, d]" using length_4 by blast
  have "hd bs = hd (take 4 bs)" using assms by (cases bs) simp_all
  with t show ?thesis by simp
qed

lemma no_magic_iff:
  assumes "4 \<le> length bs"
  shows "check_magic (take 4 bs) = None \<longleftrightarrow> spec_signature (take 4 bs) = None \<and> hd bs \<noteq> 0"
proof -
  from header_4 [OF assms] obtain a b c d where "take 4 bs = [a, b, c, d]" "hd bs = a" by blast
  then show ?thesis by (simp only: check_magic_None_iff)
qed

subsection \<open>The loops on a readable file\<close>

lemma scan_buf_fold: "scan_buf buf (length buf) st = fold scan_byte buf st"
proof -
  have "scan_buf buf (length buf) st = fold (\<lambda>i. scan_byte (buf ! i)) [0..<length buf] st"
    by (simp add: scan_buf_def foldl_conv_fold)
  also have "\<dots> = fold scan_byte (map ((!) buf) [0..<length buf]) st"
    by (simp add: fold_map comp_def)
  finally show ?thesis by (simp add: map_nth)
qed

lemma scan_byte_offset [simp]: "offset (scan_byte c st) = offset st"
  by (simp add: scan_byte_def Let_def)

lemma scan_byte_ud [simp]: "ud_data (scan_byte c st) = ud_data st"
  by (simp add: scan_byte_def Let_def)

lemma scan_byte_binaryish:
  "binaryish (scan_byte c st) = binaryish st + (if is_binaryish c then 1 else 0)"
  by (simp add: scan_byte_def Let_def)

lemma fold_scan_offset [simp]: "offset (fold scan_byte bs st) = offset st"
  by (induction bs arbitrary: st) simp_all

lemma fold_scan_ud [simp]: "ud_data (fold scan_byte bs st) = ud_data st"
  by (induction bs arbitrary: st) simp_all

lemma control_count_append: "control_count (xs @ ys) = control_count xs + control_count ys"
  by (simp add: control_count_def)

lemma fold_scan_binaryish:
  "binaryish (fold scan_byte bs st) = binaryish st + control_count bs"
  by (induction bs arbitrary: st) (simp_all add: control_count_def scan_byte_binaryish)

lemma scan_byte_utf8_cong:
  assumes "utf8_part s = utf8_part t"
  shows "utf8_part (scan_byte c s) = utf8_part (scan_byte c t)"
proof -
  from assms have c: "utf8_cont_bytes s = utf8_cont_bytes t" and e: "utf8_errors s = utf8_errors t"
    by (simp_all add: utf8_part_def)
  show ?thesis
    unfolding scan_byte_def utf8_part_def Let_def
    by (simp add: c e)
qed

lemma fold_scan_utf8_cong:
  "utf8_part s = utf8_part t \<Longrightarrow>
   utf8_part (fold scan_byte bs s) = utf8_part (fold scan_byte bs t)"
proof (induction bs arbitrary: s t)
  case Nil
  then show ?case by simp
next
  case (Cons c bs)
  have "utf8_part (scan_byte c s) = utf8_part (scan_byte c t)"
    using Cons.prems by (rule scan_byte_utf8_cong)
  then have "utf8_part (fold scan_byte bs (scan_byte c s)) = utf8_part (fold scan_byte bs (scan_byte c t))"
    by (rule Cons.IH)
  then show ?case by simp
qed

lemma fm_size_mapping [simp]: "fm_size (mapping_of bs) = length bs"
  by (simp add: fm_size_def mapping_of_def)

lemma fm_read_mapping:
  "off + len \<le> length bs \<Longrightarrow> fm_read (mapping_of bs) off len = Inr (take len (drop off bs))"
  by (simp add: fm_read_def mapping_of_def)

lemma scan_loop_step:
  assumes "offset st < length bs"
  shows "scan_loop (mapping_of bs) st log =
     (let log' = log @ [(offset st, min 4096 (length bs - offset st))]
      in if binaryish (next_state bs st) > offset (next_state bs st) div 8
         then (log', Inr (Return ''binary''))
         else scan_loop (mapping_of bs) (next_state bs st) log')"
proof -
  let ?rd = "min 4096 (length bs - offset st)"
  let ?buf = "take ?rd (drop (offset st) bs)"
  have rd: "fm_read (mapping_of bs) (offset st) ?rd = Inr ?buf"
    using assms by (intro fm_read_mapping) simp
  have len: "length ?buf = ?rd" using assms by simp
  have sb: "scan_buf ?buf ?rd s = fold scan_byte ?buf s" for s
    using scan_buf_fold [of ?buf s] len by simp
  have tk: "take ?rd ?buf = ?buf" by simp
  show ?thesis
    apply (subst scan_loop.simps)
    apply (simp only: fm_size_mapping assms if_True Let_def rd sum.case sb tk next_state_def)
    done
qed

lemma scan_loop_end:
  "\<not> offset st < length bs \<Longrightarrow> scan_loop (mapping_of bs) st log = (log, Inr (Done st))"
  by (subst scan_loop.simps) simp

lemma next_state_offset:
  "offset (next_state bs st) = offset st + min 4096 (length bs - offset st)"
  by (simp add: next_state_def Let_def)

lemma take_window:
  "take (off + min 4096 (length bs - off)) bs = take off bs @ take (min 4096 (length bs - off)) (drop off bs)"
  by (simp add: take_add)

lemma next_state_consistent:
  assumes "consistent bs st" "offset st < length bs"
  shows "consistent bs (next_state bs st)"
proof -
  let ?rd = "min 4096 (length bs - offset st)"
  let ?buf = "take ?rd (drop (offset st) bs)"
  let ?st1 = "st\<lparr>ud_data := ud_data st @ [?buf], offset := offset st + ?rd\<rparr>"
  have ns: "next_state bs st = fold scan_byte ?buf ?st1" by (simp add: next_state_def Let_def)
  have tk: "take (offset st + ?rd) bs = take (offset st) bs @ ?buf" by (rule take_window)
  have 1: "offset (next_state bs st) \<le> length bs"
    using assms(2) by (simp add: next_state_offset)
  have 2: "binaryish (next_state bs st) = control_count (take (offset (next_state bs st)) bs)"
    using assms(1) by (simp add: next_state_offset tk control_count_append consistent_def
        ns fold_scan_binaryish)
  have "utf8_part ?st1 = utf8_part (fold scan_byte (take (offset st) bs) initial_state)"
    using assms(1) by (simp add: consistent_def utf8_part_def)
  then have "utf8_part (fold scan_byte ?buf ?st1) =
      utf8_part (fold scan_byte ?buf (fold scan_byte (take (offset st) bs) initial_state))"
    by (rule fold_scan_utf8_cong)
  then have 3: "utf8_part (next_state bs st) =
      utf8_part (fold scan_byte (take (offset (next_state bs st)) bs) initial_state)"
    by (simp add: next_state_offset tk ns)
  show ?thesis using 1 2 3 by (simp add: consistent_def)
qed

lemma initial_consistent: "consistent bs initial_state"
  by (simp add: consistent_def initial_state_def control_count_def)

lemma scan_loop_done:
  assumes "consistent bs st" "scan_loop (mapping_of bs) st log = (log', Inr (Done st'))"
  shows "consistent bs st' \<and> offset st' = length bs"
  using assms
proof (induction "length bs - offset st" arbitrary: st log rule: less_induct)
  case less
  show ?case
  proof (cases "offset st < length bs")
    case True
    let ?st2 = "next_state bs st"
    have c2: "consistent bs ?st2" using less.prems(1) True by (rule next_state_consistent)
    have m: "length bs - offset ?st2 < length bs - offset st"
      using True by (simp add: next_state_offset)
    from less.prems(2) True
    have "\<not> binaryish ?st2 > offset ?st2 div 8"
      by (auto simp: scan_loop_step Let_def split: if_splits)
    with less.prems(2) True
    have "scan_loop (mapping_of bs) ?st2 (log @ [(offset st, min 4096 (length bs - offset st))]) = (log', Inr (Done st'))"
      by (simp add: scan_loop_step Let_def)
    with less.hyps [OF m c2] show ?thesis by blast
  next
    case False
    then have "st' = st" using less.prems(2) by (simp add: scan_loop_end)
    moreover have "offset st = length bs" using False less.prems(1) by (simp add: consistent_def)
    ultimately show ?thesis using less.prems(1) by simp
  qed
qed

lemma Detect_run_readable:
  "Detect_run wuc g (readable bs) =
     (let rest = (\<lambda>log. if length bs > 104857600 then (log, Inr ''binary'')
                         else if wuc then detect_full g (mapping_of bs) log
                         else detect_minimal (mapping_of bs) log)
      in if length bs \<ge> 4 then
           (case check_magic (take 4 bs) of Some label \<Rightarrow> ([(0, 4)], Inr label)
            | None \<Rightarrow> rest [(0, 4)])
         else rest [])"
  by (simp add: Detect_run_def readable_def fm_read_mapping Let_def)

lemmas run_defs = Detect_def Detect_run_def readable_def mapping_of_def fm_size_def
  detect_full_def detect_minimal_def scan_loop.simps initial_state_def fm_read_def scan_buf_def
  scan_byte_def countl_one_def is_binaryish_def end_of_stream_def Let_def

subsection \<open>Signatures\<close>

text \<open>
  C3: a file of at least 4 bytes that starts with FF FE 00 00 is \<open>utf-32le\<close>, in both
  builds: the 4-byte comparison comes before the 2-byte comparison with FF FE, so the
  answer is never \<open>utf-16le\<close>.
\<close>

theorem C3_utf32le_before_utf16le:
  assumes "4 \<le> length bs" and "take 4 bs = [0xFF, 0xFE, 0, 0]"
  shows "Detect with_uchardet guess (readable bs) = Inr ''utf-32le'' \<and>
         Detect with_uchardet guess (readable bs) \<noteq> Inr ''utf-16le''"
  using assms by (simp add: Detect_def Detect_run_readable check_magic_utf32le)

theorem C3_utf32le_before_utf16le_witness:
  "Detect True (fixed_guess ''x'') (readable [0xFF, 0xFE, 0, 0, 0x41, 0, 0, 0]) = Inr ''utf-32le'' \<and>
   Detect True (fixed_guess ''x'') (readable [0xFF, 0xFE, 0, 0, 0x41, 0, 0, 0]) \<noteq> Inr ''utf-16le''"
  using C3_utf32le_before_utf16le [of "[0xFF, 0xFE, 0, 0, 0x41, 0, 0, 0]" True "fixed_guess ''x''"]
  by simp

lemma take3_4:
  assumes "4 \<le> length bs" and "take 3 bs = [a, b, c]"
  shows "take 4 bs = [a, b, c, bs ! 3]"
proof -
  have "take 4 bs = take 3 bs @ [bs ! 3]"
    using assms(1) take_Suc_conv_app_nth [of 3 bs] by (simp add: eval_nat_numeral)
  then show ?thesis using assms(2) by simp
qed

lemma bom_only: "Detect wuc g (readable [0xEF, 0xBB, 0xBF]) = Inr ''utf-8''"
  by (cases wuc) (simp_all add: run_defs upt_rec)

text \<open>
  C4: a file whose first three bytes are EF BB BF is \<open>utf-8\<close> whatever follows, in
  both builds. With 4 bytes or more the signature check answers; the file of exactly
  these 3 bytes skips that check and is scanned.
\<close>

theorem C4_utf8_bom:
  assumes "take 3 bs = [0xEF, 0xBB, 0xBF]"
  shows "Detect with_uchardet guess (readable bs) = Inr ''utf-8''"
proof (cases "4 \<le> length bs")
  case True
  then have "take 4 bs = [0xEF, 0xBB, 0xBF, bs ! 3]" using assms by (rule take3_4)
  then show ?thesis using True by (simp add: Detect_def Detect_run_readable check_magic_bom8)
next
  case False
  have "length (take 3 bs) = 3" using assms by simp
  then have "3 \<le> length bs" by simp
  with False have "length bs = 3" by simp
  then have "bs = [0xEF, 0xBB, 0xBF]" using assms by simp
  then show ?thesis by (simp add: bom_only)
qed

theorem C4_utf8_bom_witness:
  "Detect True (fixed_guess ''x'') (readable [0xEF, 0xBB, 0xBF, 0xFF, 0x01, 0x80]) = Inr ''utf-8'' \<and>
   Detect False (fixed_guess ''x'') (readable [0xEF, 0xBB, 0xBF, 0xFF, 0x01, 0x80]) = Inr ''utf-8'' \<and>
   Detect True (fixed_guess ''x'') (readable [0xEF, 0xBB, 0xBF]) = Inr ''utf-8'' \<and>
   Detect False (fixed_guess ''x'') (readable [0xEF, 0xBB, 0xBF]) = Inr ''utf-8''"
  using C4_utf8_bom [of "[0xEF, 0xBB, 0xBF, 0xFF, 0x01, 0x80]" True "fixed_guess ''x''"]
    C4_utf8_bom [of "[0xEF, 0xBB, 0xBF, 0xFF, 0x01, 0x80]" False "fixed_guess ''x''"]
    C4_utf8_bom [of "[0xEF, 0xBB, 0xBF]" True "fixed_guess ''x''"]
    C4_utf8_bom [of "[0xEF, 0xBB, 0xBF]" False "fixed_guess ''x''"]
  by simp

subsection \<open>Short files\<close>

text \<open>
  C6: in the build with uchardet, on the file of the single byte E2 the loop ends with
  two continuation bytes pending and no error; the check after the loop makes it one
  error, and as 1 < 5 the answer is \<open>utf-8\<close> whatever uchardet would have guessed.
\<close>

theorem C6_truncated_lead_byte:
  "scan_loop (mapping_of [0xE2]) initial_state [] =
     ([(0, 1)], Inr (Done \<lparr>offset = 1, binaryish = 0, utf8_errors = 0, utf8_cont_bytes = 2,
                               ud_data = [[0xE2]]\<rparr>)) \<and>
   utf8_errors (end_of_stream \<lparr>offset = 1, binaryish = 0, utf8_errors = 0, utf8_cont_bytes = 2,
                                 ud_data = [[0xE2]]\<rparr>) = 1 \<and>
   Detect True guess (readable [0xE2]) = Inr ''utf-8''"
  by (simp add: run_defs)

text \<open>
  C10: a file that is exactly a UTF-16 byte-order mark, FE FF or FF FE, is \<open>utf-8\<close> in
  both builds: with fewer than 4 bytes the signature check does not run, neither byte
  is control-like, and the two bytes are two UTF-8 errors, fewer than 5.
\<close>

theorem C10_bare_utf16_bom:
  "Detect with_uchardet guess (readable [0xFE, 0xFF]) = Inr ''utf-8'' \<and>
   Detect with_uchardet guess (readable [0xFF, 0xFE]) = Inr ''utf-8'' \<and>
   utf8_errors (scan_buf [0xFE, 0xFF] 2 initial_state) = 2 \<and>
   utf8_errors (scan_buf [0xFF, 0xFE] 2 initial_state) = 2 \<and>
   binaryish (scan_buf [0xFE, 0xFF] 2 initial_state) = 0 \<and>
   binaryish (scan_buf [0xFF, 0xFE] 2 initial_state) = 0"
  by (cases with_uchardet) (simp_all add: run_defs upt_rec)

subsection \<open>The build without uchardet\<close>

lemma count_loop:
  "foldl (\<lambda>n i. if is_binaryish (buf ! i) then n + 1 else n) (0::nat) [0..<length buf] =
   control_count buf"
proof -
  have "fold (\<lambda>c n. if is_binaryish c then n + 1 else n) xs (k::nat) = k + control_count xs"
    for xs k
    by (induction xs arbitrary: k) (simp_all add: control_count_def)
  from this [of buf 0]
  have "fold (\<lambda>c n. if is_binaryish c then n + 1 else n) (map ((!) buf) [0..<length buf]) (0::nat) =
      control_count buf"
    by (simp add: map_nth)
  then show ?thesis by (simp add: foldl_conv_fold fold_map comp_def)
qed

lemma detect_minimal_readable:
  "detect_minimal (mapping_of bs) log =
     (log @ [(0, min 4096 (length bs))],
      Inr (if control_count (take 4096 bs) > min 4096 (length bs) div 8
           then ''binary'' else ''utf-8''))"
proof -
  let ?rd = "min 4096 (length bs)"
  have rd: "fm_read (mapping_of bs) 0 ?rd = Inr (take ?rd bs)"
    using fm_read_mapping [of 0 ?rd bs] by simp
  have len: "length (take ?rd bs) = ?rd" by simp
  have cnt: "foldl (\<lambda>n i. if is_binaryish (take ?rd bs ! i) then n + 1 else n) (0::nat) [0..<?rd] =
      control_count (take ?rd bs)"
    using count_loop [of "take ?rd bs"] len by simp
  have tk: "take ?rd bs = take 4096 bs" by (simp add: min_def)
  show ?thesis
    unfolding detect_minimal_def Let_def fm_size_mapping rd sum.case cnt
    by (simp add: tk)
qed

text \<open>
  In the build without uchardet, a file of at most 100 MiB on which \<open>check_magic\<close>
  finds nothing is read once more, \<open>min 4096 size\<close> bytes at offset 0; the answer is
  \<open>binary\<close> if the control-like bytes of that window are more than an eighth of the
  bytes read (integer division), and \<open>utf-8\<close> otherwise. No UTF-8 validation takes
  part, and two files of the same size that agree on the first 4096 bytes get the same
  answer.
\<close>

lemma minimal_build_no_magic:
  assumes "length bs \<le> 100 * 1024 * 1024"
    and "4 \<le> length bs \<longrightarrow> check_magic (take 4 bs) = None"
  shows "Detect False guess (readable bs) =
           Inr (if control_count (take 4096 bs) > min 4096 (length bs) div 8
                then ''binary'' else ''utf-8'') \<and>
         reads_issued False guess (readable bs) =
           (if 4 \<le> length bs then [(0, 4)] else []) @ [(0, min 4096 (length bs))] \<and>
         (\<forall>bs'. length bs' = length bs \<and> take 4096 bs' = take 4096 bs \<longrightarrow>
            Detect False guess (readable bs') = Detect False guess (readable bs))"
proof -
  have run: "Detect_run False guess (readable cs) =
      ((if 4 \<le> length cs then [(0, 4)] else []) @ [(0, min 4096 (length cs))],
       Inr (if control_count (take 4096 cs) > min 4096 (length cs) div 8
            then ''binary'' else ''utf-8''))"
    if "length cs \<le> 104857600" "4 \<le> length cs \<longrightarrow> check_magic (take 4 cs) = None" for cs
    using that by (simp add: Detect_run_readable detect_minimal_readable)
  have 1: "Detect_run False guess (readable bs) =
      ((if 4 \<le> length bs then [(0, 4)] else []) @ [(0, min 4096 (length bs))],
       Inr (if control_count (take 4096 bs) > min 4096 (length bs) div 8
            then ''binary'' else ''utf-8''))"
    using assms by (intro run) simp_all
  have 2: "Detect False guess (readable bs') = Detect False guess (readable bs)"
    if eq: "length bs' = length bs" "take 4096 bs' = take 4096 bs" for bs'
  proof -
    have "take 4 bs' = take 4 (take 4096 bs')" by simp
    also have "\<dots> = take 4 bs" unfolding eq(2) by simp
    finally have "4 \<le> length bs' \<longrightarrow> check_magic (take 4 bs') = None"
      using assms(2) eq(1) by simp
    moreover have "length bs' \<le> 104857600" using assms(1) eq(1) by simp
    ultimately have "Detect_run False guess (readable bs') =
      ((if 4 \<le> length bs' then [(0, 4)] else []) @ [(0, min 4096 (length bs'))],
       Inr (if control_count (take 4096 bs') > min 4096 (length bs') div 8
            then ''binary'' else ''utf-8''))"
      by (intro run)
    then show ?thesis using 1 eq by (simp add: Detect_def)
  qed
  show ?thesis using 1 2 by (simp add: Detect_def reads_issued_def)
qed

lemma minimal_build_example:
  "check_magic (take 4 [0x41, 0x00, 0x42, 0x43, 0x44]) = None \<and>
   Detect False (fixed_guess ''x'') (readable [0x41, 0x00, 0x42, 0x43, 0x44]) = Inr ''binary'' \<and>
   reads_issued False (fixed_guess ''x'') (readable [0x41, 0x00, 0x42, 0x43, 0x44]) = [(0, 4), (0, 5)] \<and>
   check_magic (take 4 [0x41, 0x42, 0x43, 0x44, 0x45]) = None \<and>
   Detect False (fixed_guess ''x'') (readable [0x41, 0x42, 0x43, 0x44, 0x45]) = Inr ''utf-8''"
proof -
  have m1: "check_magic (take 4 [0x41, 0x00, 0x42, 0x43, 0x44]) = None"
    and m2: "check_magic (take 4 [0x41, 0x42, 0x43, 0x44, 0x45]) = None"
    by (simp_all add: magic_defs strncmp_Cons)
  show ?thesis
    using m1 m2 minimal_build_no_magic [of "[0x41, 0x00, 0x42, 0x43, 0x44]" "fixed_guess ''x''"]
      minimal_build_no_magic [of "[0x41, 0x42, 0x43, 0x44, 0x45]" "fixed_guess ''x''"]
    by (simp add: control_count_def is_binaryish_def)
qed

text \<open>In terms of the spec's signatures: the same on every file that does not start with 00.\<close>

lemma minimal_build_spec:
  assumes "length bs \<le> 100 * 1024 * 1024"
    and "4 \<le> length bs \<longrightarrow> spec_signature (take 4 bs) = None \<and> hd bs \<noteq> 0"
  shows "Detect False guess (readable bs) =
           Inr (if control_count (take 4096 bs) > min 4096 (length bs) div 8
                then ''binary'' else ''utf-8'') \<and>
         reads_issued False guess (readable bs) =
           (if 4 \<le> length bs then [(0, 4)] else []) @ [(0, min 4096 (length bs))]"
proof -
  have "4 \<le> length bs \<longrightarrow> check_magic (take 4 bs) = None"
    using assms(2) no_magic_iff [of bs] by blast
  from minimal_build_no_magic [OF assms(1) this, of guess] show ?thesis by blast
qed

text \<open>
  C7: the property fails on the file 00 41 42 43. The file carries none of the six
  signatures and is far below 100 MiB; one of its 4 bytes is control-like, more than
  4 div 8 = 0, so the build without uchardet is to answer \<open>binary\<close>. The comparison with
  the UTF-32BE literal (line 33) stops at the NUL the two strings share, and the answer
  is \<open>utf-32be\<close>, neither \<open>binary\<close> nor \<open>utf-8\<close>.
\<close>

theorem C7_leading_nul:
  "spec_signature [0x00, 0x41, 0x42, 0x43] = None \<and>
   length [0x00, 0x41, 0x42, 0x43 :: byte] \<le> 100 * 1024 * 1024 \<and>
   control_count (take 4096 [0x00, 0x41, 0x42, 0x43]) = 1 \<and>
   min 4096 (length [0x00, 0x41, 0x42, 0x43 :: byte]) div 8 = 0 \<and>
   Detect False guess (readable [0x00, 0x41, 0x42, 0x43]) = Inr ''utf-32be''"
proof -
  have "spec_signature [0x00, 0x41, 0x42, 0x43] = None"
    unfolding spec_signature_def take_3_Cons take_2_Cons take_4_Cons by simp
  moreover have "control_count (take 4096 [0x00, 0x41, 0x42, 0x43]) = 1"
    by (simp add: control_count_def is_binaryish_def)
  moreover have "Detect False guess (readable [0x00, 0x41, 0x42, 0x43]) = Inr ''utf-32be''"
    by (simp add: Detect_def Detect_run_readable check_magic_leading_nul)
  ultimately show ?thesis by simp
qed

subsection \<open>Failing reads\<close>

lemma fm_read_error: "fm_read fp off len = Inl e \<Longrightarrow> e = ReadError"
  by (simp add: fm_read_def split: if_splits)

text \<open>One turn of the window loop on any file mapping, with the window size named.\<close>

lemma scan_loop_unfold:
  assumes "offset st < fm_size fp" and "rd = min 4096 (fm_size fp - offset st)"
  shows "scan_loop fp st log =
     (case fm_read fp (offset st) rd of
        Inl e \<Rightarrow> (log @ [(offset st, rd)], Inl e)
      | Inr buf \<Rightarrow>
          if binaryish (scan_buf buf rd
                 (st\<lparr>ud_data := ud_data st @ [take rd buf], offset := offset st + rd\<rparr>))
             > offset (scan_buf buf rd
                 (st\<lparr>ud_data := ud_data st @ [take rd buf], offset := offset st + rd\<rparr>)) div 8
          then (log @ [(offset st, rd)], Inr (Return ''binary''))
          else scan_loop fp (scan_buf buf rd
                 (st\<lparr>ud_data := ud_data st @ [take rd buf], offset := offset st + rd\<rparr>))
                 (log @ [(offset st, rd)]))"
  apply (subst scan_loop.simps)
  apply (simp only: assms(1) if_True Let_def assms(2) [symmetric])
  done

lemma scan_loop_exit:
  "\<not> offset st < fm_size fp \<Longrightarrow> scan_loop fp st log = (log, Inr (Done st))"
  by (subst scan_loop.simps) (simp only: if_False)

lemma scan_buf_0 [simp]: "scan_buf buf 0 st = st"
  by (simp add: scan_buf_def)

lemma scan_buf_Suc: "scan_buf buf (Suc n) st = scan_byte (buf ! n) (scan_buf buf n st)"
  by (simp add: scan_buf_def)

lemma scan_buf_offset [simp]: "offset (scan_buf buf n st) = offset st"
  by (induction n) (simp_all add: scan_buf_Suc)

lemma scan_loop_log:
  assumes "scan_loop fp st log = (log', r)"
    and "\<forall>(off, len) \<in> set log. \<exists>buf. fm_read fp off len = Inr buf"
  shows "(\<forall>e. r = Inl e \<longrightarrow> e = ReadError) \<and>
         (\<forall>x. r = Inr x \<longrightarrow> (\<forall>(off, len) \<in> set log'. \<exists>buf. fm_read fp off len = Inr buf))"
  using assms
proof (induction "fm_size fp - offset st" arbitrary: st log rule: less_induct)
  case less
  show ?case
  proof (cases "offset st < fm_size fp")
    case False
    then have "scan_loop fp st log = (log, Inr (Done st))" by (rule scan_loop_exit)
    with less.prems show ?thesis by auto
  next
    case True
    define rd where "rd = min 4096 (fm_size fp - offset st)"
    have pos: "0 < rd" using True by (simp add: rd_def)
    note U = scan_loop_unfold [OF True rd_def, of log]
    show ?thesis
    proof (cases "fm_read fp (offset st) rd")
      case (Inl e)
      then have "scan_loop fp st log = (log @ [(offset st, rd)], Inl e)" by (simp add: U)
      with less.prems(1) Inl show ?thesis by (auto dest: fm_read_error)
    next
      case (Inr buf)
      define st2 where "st2 = scan_buf buf rd
          (st\<lparr>ud_data := ud_data st @ [take rd buf], offset := offset st + rd\<rparr>)"
      have o2: "offset st2 = offset st + rd" by (simp add: st2_def)
      have ok: "\<forall>(off, len) \<in> set (log @ [(offset st, rd)]). \<exists>buf. fm_read fp off len = Inr buf"
        using less.prems(2) Inr by auto
      show ?thesis
      proof (cases "binaryish st2 > offset st2 div 8")
        case trip: True
        have "scan_loop fp st log = (log @ [(offset st, rd)], Inr (Return ''binary''))"
          using trip unfolding st2_def by (simp add: U Inr)
        with less.prems(1) ok show ?thesis by auto
      next
        case notrip: False
        have "scan_loop fp st log = scan_loop fp st2 (log @ [(offset st, rd)])"
          using notrip unfolding st2_def by (simp add: U Inr)
        then have run: "scan_loop fp st2 (log @ [(offset st, rd)]) = (log', r)"
          using less.prems(1) by simp
        have dec: "fm_size fp - offset st2 < fm_size fp - offset st"
          using True pos o2 by simp
        from less.hyps [OF dec run ok] show ?thesis .
      qed
    qed
  qed
qed

lemma detect_full_log:
  assumes "detect_full g fp log = (log', r)"
    and "\<forall>(off, len) \<in> set log. \<exists>buf. fm_read fp off len = Inr buf"
  shows "(\<forall>e. r = Inl e \<longrightarrow> e = ReadError) \<and>
         (\<forall>x. r = Inr x \<longrightarrow> (\<forall>(off, len) \<in> set log'. \<exists>buf. fm_read fp off len = Inr buf))"
proof -
  obtain l2 r2 where sl: "scan_loop fp initial_state log = (l2, r2)" by (cases "scan_loop fp initial_state log")
  note L = scan_loop_log [OF sl assms(2)]
  show ?thesis
  proof (cases r2)
    case (Inl e)
    with sl assms(1) have "log' = l2" "r = Inl e" by (simp_all add: detect_full_def)
    with L Inl show ?thesis by simp
  next
    case (Inr x)
    with sl assms(1) have "log' = l2" "\<exists>y. r = Inr y"
      by (auto simp: detect_full_def Let_def split: loop_exit.splits if_splits)
    with L Inr show ?thesis by auto
  qed
qed

lemma detect_minimal_log:
  assumes "detect_minimal fp log = (log', r)"
    and "\<forall>(off, len) \<in> set log. \<exists>buf. fm_read fp off len = Inr buf"
  shows "(\<forall>e. r = Inl e \<longrightarrow> e = ReadError) \<and>
         (\<forall>x. r = Inr x \<longrightarrow> (\<forall>(off, len) \<in> set log'. \<exists>buf. fm_read fp off len = Inr buf))"
  using assms
  by (cases "fm_read fp 0 (min 4096 (fm_size fp))")
    (auto simp: detect_minimal_def Let_def dest: fm_read_error split: if_splits)

lemma Detect_run_log:
  assumes "Detect_run wuc g (Inr fp) = (log, r)"
  shows "(\<forall>e. r = Inl e \<longrightarrow> e = ReadError) \<and>
         (\<forall>x. r = Inr x \<longrightarrow> (\<forall>(off, len) \<in> set log. \<exists>buf. fm_read fp off len = Inr buf))"
proof -
  have rest: "(\<forall>e. r = Inl e \<longrightarrow> e = ReadError) \<and>
         (\<forall>x. r = Inr x \<longrightarrow> (\<forall>(off, len) \<in> set log. \<exists>buf. fm_read fp off len = Inr buf))"
    if ok: "\<forall>(off, len) \<in> set l0. \<exists>buf. fm_read fp off len = Inr buf"
      and run: "(if fm_size fp > 100 * 1024 * 1024 then (l0, Inr ''binary'')
                 else if wuc then detect_full g fp l0 else detect_minimal fp l0) = (log, r)"
    for l0
  proof (cases "fm_size fp > 100 * 1024 * 1024")
    case True
    with run ok show ?thesis by auto
  next
    case False
    show ?thesis
    proof (cases wuc)
      case True
      with run False have "detect_full g fp l0 = (log, r)" by simp
      then show ?thesis using ok by (rule detect_full_log)
    next
      case no: False
      with run False have "detect_minimal fp l0 = (log, r)" by simp
      then show ?thesis using ok by (rule detect_minimal_log)
    qed
  qed
  show ?thesis
  proof (cases "4 \<le> fm_size fp")
    case False
    with assms have "(if fm_size fp > 100 * 1024 * 1024 then ([], Inr ''binary'')
                 else if wuc then detect_full g fp [] else detect_minimal fp []) = (log, r)"
      by (simp add: Detect_run_def Let_def)
    then show ?thesis by (intro rest [of "[]"]) simp_all
  next
    case True
    show ?thesis
    proof (cases "fm_read fp 0 4")
      case (Inl e)
      with True assms have "log = [(0, 4)]" "r = Inl e" by (simp_all add: Detect_run_def Let_def)
      with Inl show ?thesis by (auto dest: fm_read_error)
    next
      case (Inr header)
      show ?thesis
      proof (cases "check_magic header")
        case (Some label)
        with True Inr assms have "log = [(0, 4)]" "r = Inr label"
          by (simp_all add: Detect_run_def Let_def)
        with Inr show ?thesis by auto
      next
        case None
        with True Inr assms have "(if fm_size fp > 100 * 1024 * 1024 then ([(0, 4)], Inr ''binary'')
                 else if wuc then detect_full g fp [(0, 4)] else detect_minimal fp [(0, 4)]) = (log, r)"
          by (simp add: Detect_run_def Let_def)
        then show ?thesis using Inr by (intro rest [of "[(0, 4)]"]) simp_all
      qed
    qed
  qed
qed

text \<open>
  C9: if the file cannot be opened the call ends with that error, and if any read the
  call issues fails the call ends with the error of that read: no label is returned.
\<close>

theorem C9_io_failure:
  "Detect with_uchardet guess (Inl e) = Inl e \<and>
   ((off, len) \<in> set (reads_issued with_uchardet guess (Inr fp)) \<and> fm_read fp off len = Inl e'
      \<longrightarrow> Detect with_uchardet guess (Inr fp) = Inl e')"
proof -
  have 1: "Detect with_uchardet guess (Inl e) = Inl e"
    by (simp add: Detect_def Detect_run_def)
  have 2: "Detect with_uchardet guess (Inr fp) = Inl e'"
    if m: "(off, len) \<in> set (reads_issued with_uchardet guess (Inr fp))"
      and f: "fm_read fp off len = Inl e'"
  proof -
    obtain log r where run: "Detect_run with_uchardet guess (Inr fp) = (log, r)"
      by (cases "Detect_run with_uchardet guess (Inr fp)")
    note L = Detect_run_log [OF run]
    have mem: "(off, len) \<in> set log" using m run by (simp add: reads_issued_def)
    have e': "e' = ReadError" using f by (rule fm_read_error)
    show ?thesis
    proof (cases r)
      case (Inl e2)
      with L have "e2 = ReadError" by simp
      with Inl run e' show ?thesis by (simp add: Detect_def)
    next
      case (Inr x)
      with L mem have "\<exists>buf. fm_read fp off len = Inr buf" by auto
      with f show ?thesis by simp
    qed
  qed
  show ?thesis using 1 2 by blast
qed

theorem C9_io_failure_witness:
  "Detect True (fixed_guess ''x'') (Inl OpenError) = Inl OpenError \<and>
   (0, 5) \<in> set (reads_issued True (fixed_guess ''x'')
       (Inr \<lparr>fm_data = [0x41, 0x42, 0x43, 0x44, 0x45], fm_fails = fails_only 0 5\<rparr>)) \<and>
   fm_read \<lparr>fm_data = [0x41, 0x42, 0x43, 0x44, 0x45], fm_fails = fails_only 0 5\<rparr> 0 5 = Inl ReadError \<and>
   Detect True (fixed_guess ''x'')
       (Inr \<lparr>fm_data = [0x41, 0x42, 0x43, 0x44, 0x45], fm_fails = fails_only 0 5\<rparr>) = Inl ReadError"
proof -
  let ?fp = "\<lparr>fm_data = [0x41, 0x42, 0x43, 0x44, 0x45], fm_fails = fails_only 0 5\<rparr>"
  have m: "check_magic [0x41, 0x42, 0x43, 0x44] = None"
    by (simp add: magic_defs strncmp_Cons)
  have r: "reads_issued True (fixed_guess ''x'') (Inr ?fp) = [(0, 4), (0, 5)]"
    by (simp add: reads_issued_def Detect_run_def fm_size_def fm_read_def fails_only_def m
        detect_full_def scan_loop.simps initial_state_def Let_def)
  have f: "fm_read ?fp 0 5 = Inl ReadError"
    by (simp add: fm_read_def fails_only_def)
  have "(0, 5) \<in> set (reads_issued True (fixed_guess ''x'') (Inr ?fp))"
    unfolding r by simp
  with f C9_io_failure [of True "fixed_guess ''x''" OpenError 0 5 ?fp ReadError]
  show ?thesis by simp
qed

subsection \<open>The invariant of the scan\<close>

lemma scan_byte_cont:
  "0 \<le> utf8_cont_bytes st \<and> utf8_cont_bytes st \<le> 3 \<Longrightarrow>
   0 \<le> utf8_cont_bytes (scan_byte c st) \<and> utf8_cont_bytes (scan_byte c st) \<le> 3"
  by (simp add: scan_byte_def Let_def)

lemma scan_byte_errors:
  "utf8_errors st \<le> utf8_errors (scan_byte c st) \<and>
   utf8_errors (scan_byte c st) \<le> utf8_errors st + 2"
  by (simp add: scan_byte_def Let_def)

lemma scan_buf_bounds:
  assumes "0 \<le> utf8_cont_bytes st \<and> utf8_cont_bytes st \<le> 3"
  shows "binaryish (scan_buf buf n st) \<le> binaryish st + n \<and>
         0 \<le> utf8_cont_bytes (scan_buf buf n st) \<and> utf8_cont_bytes (scan_buf buf n st) \<le> 3 \<and>
         utf8_errors st \<le> utf8_errors (scan_buf buf n st) \<and>
         utf8_errors (scan_buf buf n st) \<le> utf8_errors st + 2 * n"
proof (induction n)
  case 0
  show ?case using assms by simp
next
  case (Suc n)
  let ?s = "scan_buf buf n st"
  have b: "binaryish (scan_byte (buf ! n) ?s) \<le> binaryish ?s + 1"
    by (simp add: scan_byte_binaryish)
  have c: "0 \<le> utf8_cont_bytes (scan_byte (buf ! n) ?s) \<and> utf8_cont_bytes (scan_byte (buf ! n) ?s) \<le> 3"
    using Suc by (intro scan_byte_cont) simp
  note e = scan_byte_errors [of ?s "buf ! n"]
  show ?case using Suc b c e by (simp add: scan_buf_Suc)
qed

lemma scan_buf_errors_mono:
  "m \<le> n \<Longrightarrow> utf8_errors (scan_buf buf m st) \<le> utf8_errors (scan_buf buf n st)"
proof (induction n)
  case 0
  then show ?case by simp
next
  case (Suc n)
  show ?case
  proof (cases "m = Suc n")
    case True
    then show ?thesis by simp
  next
    case False
    with Suc.prems have "m \<le> n" by simp
    then have "utf8_errors (scan_buf buf m st) \<le> utf8_errors (scan_buf buf n st)" by (rule Suc.IH)
    also have "\<dots> \<le> utf8_errors (scan_buf buf (Suc n) st)"
      using scan_byte_errors [of "scan_buf buf n st" "buf ! n"] by (simp add: scan_buf_Suc)
    finally show ?thesis .
  qed
qed

lemma sorted_inner:
  "sorted (map utf8_errors (map (\<lambda>n. scan_buf buf n st) [0..<k]))"
  by (simp add: sorted_iff_nth_mono scan_buf_errors_mono)

lemma trace_Cons:
  fixes e :: "'a \<Rightarrow> nat"
  assumes "P x" and "\<forall>s \<in> set xs. P s \<and> e x \<le> e s" and "sorted (map e xs)"
  shows "(\<forall>s \<in> set (x # xs). P s \<and> e x \<le> e s) \<and> sorted (map e (x # xs))"
  using assms by simp

lemma trace_append:
  fixes e :: "'a \<Rightarrow> nat"
  assumes "sorted (map e xs)" and "sorted (map e ys)"
    and "\<forall>a \<in> set xs. \<forall>b \<in> set ys. e a \<le> e b"
  shows "sorted (map e (xs @ ys))"
  using assms by (simp add: sorted_append)

lemma scan_states_unfold:
  assumes "offset st < fm_size fp" and "rd = min 4096 (fm_size fp - offset st)"
  shows "scan_states fp st =
     (case fm_read fp (offset st) rd of
        Inl e \<Rightarrow> [st]
      | Inr buf \<Rightarrow>
          if binaryish (scan_buf buf rd
                 (st\<lparr>ud_data := ud_data st @ [take rd buf], offset := offset st + rd\<rparr>))
             > offset (scan_buf buf rd
                 (st\<lparr>ud_data := ud_data st @ [take rd buf], offset := offset st + rd\<rparr>)) div 8
          then st # map (\<lambda>n. scan_buf buf n
                 (st\<lparr>ud_data := ud_data st @ [take rd buf], offset := offset st + rd\<rparr>))
                 [0..<Suc rd]
          else st # map (\<lambda>n. scan_buf buf n
                 (st\<lparr>ud_data := ud_data st @ [take rd buf], offset := offset st + rd\<rparr>))
                 [0..<Suc rd]
               @ scan_states fp (scan_buf buf rd
                 (st\<lparr>ud_data := ud_data st @ [take rd buf], offset := offset st + rd\<rparr>)))"
  apply (subst scan_states.simps)
  apply (simp only: assms(1) if_True Let_def assms(2) [symmetric])
  done

lemma scan_states_exit:
  "\<not> offset st < fm_size fp \<Longrightarrow> scan_states fp st = [st]"
  by (subst scan_states.simps) (simp only: if_False)

lemma scan_states_inv:
  assumes "scan_inv fp st"
  shows "(\<forall>s \<in> set (scan_states fp st). scan_inv fp s \<and> utf8_errors st \<le> utf8_errors s) \<and>
         sorted (map utf8_errors (scan_states fp st))"
  using assms
proof (induction "fm_size fp - offset st" arbitrary: st rule: less_induct)
  case less
  show ?case
  proof (cases "offset st < fm_size fp")
    case False
    then have "scan_states fp st = [st]" by (rule scan_states_exit)
    with less.prems show ?thesis by simp
  next
    case True
    define rd where "rd = min 4096 (fm_size fp - offset st)"
    have pos: "0 < rd" and fit: "offset st + rd \<le> fm_size fp"
      using True by (simp_all add: rd_def)
    note U = scan_states_unfold [OF True rd_def]
    show ?thesis
    proof (cases "fm_read fp (offset st) rd")
      case (Inl e)
      then have "scan_states fp st = [st]" by (simp add: U)
      with less.prems show ?thesis by simp
    next
      case (Inr buf)
      define st1 where "st1 = st\<lparr>ud_data := ud_data st @ [take rd buf], offset := offset st + rd\<rparr>"
      define inner where "inner = map (\<lambda>n. scan_buf buf n st1) [0..<Suc rd]"
      define st2 where "st2 = scan_buf buf rd st1"
      have f1: "offset st1 = offset st + rd" "binaryish st1 = binaryish st"
        "utf8_errors st1 = utf8_errors st" "utf8_cont_bytes st1 = utf8_cont_bytes st"
        by (simp_all add: st1_def)
      have c1: "0 \<le> utf8_cont_bytes st1 \<and> utf8_cont_bytes st1 \<le> 3"
        using less.prems by (simp add: scan_inv_def f1)
      have inner: "scan_inv fp (scan_buf buf n st1) \<and>
          utf8_errors st \<le> utf8_errors (scan_buf buf n st1)" if "n \<le> rd" for n
      proof -
        let ?s = "scan_buf buf n st1"
        from scan_buf_bounds [OF c1, of buf n]
        have b: "binaryish ?s \<le> binaryish st + n"
          and c: "0 \<le> utf8_cont_bytes ?s" "utf8_cont_bytes ?s \<le> 3"
          and e: "utf8_errors st \<le> utf8_errors ?s" "utf8_errors ?s \<le> utf8_errors st + 2 * n"
          by (simp_all add: f1)
        have o: "offset ?s = offset st + rd" by (simp add: f1)
        have "binaryish ?s \<le> offset ?s"
          using b o that less.prems unfolding scan_inv_def by linarith
        moreover have "utf8_errors ?s \<le> 2 * offset ?s"
          using e o that less.prems unfolding scan_inv_def by linarith
        moreover have "offset ?s \<le> fm_size fp"
          using fit unfolding o .
        ultimately show ?thesis using c e(1) unfolding scan_inv_def by blast
      qed
      have inner_set: "\<forall>s \<in> set inner. scan_inv fp s \<and> utf8_errors st \<le> utf8_errors s"
        using inner unfolding inner_def by auto
      have inner_le: "\<forall>s \<in> set inner. utf8_errors s \<le> utf8_errors st2"
        unfolding inner_def st2_def by (auto intro: scan_buf_errors_mono)
      have inner_sorted: "sorted (map utf8_errors inner)"
        unfolding inner_def by (rule sorted_inner)
      show ?thesis
      proof (cases "binaryish st2 > offset st2 div 8")
        case trip: True
        have eq: "scan_states fp st = st # inner"
          using trip unfolding st2_def st1_def inner_def by (simp add: U Inr del: upt_Suc)
        show ?thesis unfolding eq
          using less.prems inner_set inner_sorted by (rule trace_Cons)
      next
        case notrip: False
        have eq: "scan_states fp st = st # inner @ scan_states fp st2"
          using notrip unfolding st2_def st1_def inner_def by (simp add: U Inr del: upt_Suc)
        have inv2: "scan_inv fp st2" using inner [of rd] by (simp add: st2_def)
        have dec: "fm_size fp - offset st2 < fm_size fp - offset st"
          using True pos by (simp add: st2_def f1)
        note IH = less.hyps [OF dec inv2]
        have le2: "utf8_errors st \<le> utf8_errors st2" using inner [of rd] by (simp add: st2_def)
        have rec_set: "\<forall>s \<in> set (scan_states fp st2). scan_inv fp s \<and> utf8_errors st \<le> utf8_errors s"
          using IH le2 by auto
        have cross: "\<forall>a \<in> set inner. \<forall>b \<in> set (scan_states fp st2). utf8_errors a \<le> utf8_errors b"
          using inner_le IH by (meson order_trans)
        have srt: "sorted (map utf8_errors (inner @ scan_states fp st2))"
          using inner_sorted _ cross by (rule trace_append) (use IH in blast)
        have all: "\<forall>s \<in> set (inner @ scan_states fp st2). scan_inv fp s \<and> utf8_errors st \<le> utf8_errors s"
          using inner_set rec_set unfolding set_append by blast
        show ?thesis unfolding eq using less.prems all srt by (rule trace_Cons)
      qed
    qed
  qed
qed

lemma initial_inv: "scan_inv fp initial_state"
  by (simp add: scan_inv_def initial_state_def)

lemma scan_states_nonempty: "scan_states fp st \<noteq> []"
proof (cases "offset st < fm_size fp")
  case False
  then show ?thesis by (simp add: scan_states_exit)
next
  case True
  show ?thesis
    by (subst scan_states_unfold [OF True refl]) (simp split: sum.splits del: upt_Suc)
qed

lemma scan_states_last:
  assumes "scan_loop fp st log = (log', Inr (Done st'))"
  shows "last (scan_states fp st) = st'"
  using assms
proof (induction "fm_size fp - offset st" arbitrary: st log rule: less_induct)
  case less
  show ?case
  proof (cases "offset st < fm_size fp")
    case False
    then have "scan_loop fp st log = (log, Inr (Done st))" by (rule scan_loop_exit)
    moreover from False have "scan_states fp st = [st]" by (rule scan_states_exit)
    ultimately show ?thesis using less.prems by simp
  next
    case True
    define rd where "rd = min 4096 (fm_size fp - offset st)"
    have pos: "0 < rd" using True by (simp add: rd_def)
    note U = scan_loop_unfold [OF True rd_def, of log]
    note V = scan_states_unfold [OF True rd_def]
    show ?thesis
    proof (cases "fm_read fp (offset st) rd")
      case (Inl e)
      then have "scan_loop fp st log = (log @ [(offset st, rd)], Inl e)" by (simp add: U)
      with less.prems show ?thesis by simp
    next
      case (Inr buf)
      define st1 where "st1 = st\<lparr>ud_data := ud_data st @ [take rd buf], offset := offset st + rd\<rparr>"
      define inner where "inner = map (\<lambda>n. scan_buf buf n st1) [0..<Suc rd]"
      define st2 where "st2 = scan_buf buf rd st1"
      show ?thesis
      proof (cases "binaryish st2 > offset st2 div 8")
        case trip: True
        have "scan_loop fp st log = (log @ [(offset st, rd)], Inr (Return ''binary''))"
          using trip unfolding st2_def st1_def by (simp add: U Inr)
        with less.prems show ?thesis by simp
      next
        case notrip: False
        have "scan_loop fp st log = scan_loop fp st2 (log @ [(offset st, rd)])"
          using notrip unfolding st2_def st1_def by (simp add: U Inr)
        then have run: "scan_loop fp st2 (log @ [(offset st, rd)]) = (log', Inr (Done st'))"
          using less.prems by simp
        have dec: "fm_size fp - offset st2 < fm_size fp - offset st"
          using True pos by (simp add: st2_def st1_def)
        from less.hyps [OF dec run] have "last (scan_states fp st2) = st'" .
        moreover have "scan_states fp st = st # inner @ scan_states fp st2"
          using notrip unfolding st2_def st1_def inner_def by (simp add: V Inr del: upt_Suc)
        ultimately show ?thesis by (simp add: scan_states_nonempty)
      qed
    qed
  qed
qed

lemma scan_states_last_return:
  assumes "scan_loop fp st log = (log', Inr (Return label))"
  shows "label = ''binary'' \<and>
         binaryish (last (scan_states fp st)) > offset (last (scan_states fp st)) div 8"
  using assms
proof (induction "fm_size fp - offset st" arbitrary: st log rule: less_induct)
  case less
  show ?case
  proof (cases "offset st < fm_size fp")
    case False
    then have "scan_loop fp st log = (log, Inr (Done st))" by (rule scan_loop_exit)
    with less.prems show ?thesis by simp
  next
    case True
    define rd where "rd = min 4096 (fm_size fp - offset st)"
    have pos: "0 < rd" using True by (simp add: rd_def)
    note U = scan_loop_unfold [OF True rd_def, of log]
    note V = scan_states_unfold [OF True rd_def]
    show ?thesis
    proof (cases "fm_read fp (offset st) rd")
      case (Inl e)
      then have "scan_loop fp st log = (log @ [(offset st, rd)], Inl e)" by (simp add: U)
      with less.prems show ?thesis by simp
    next
      case (Inr buf)
      define st1 where "st1 = st\<lparr>ud_data := ud_data st @ [take rd buf], offset := offset st + rd\<rparr>"
      define inner where "inner = map (\<lambda>n. scan_buf buf n st1) [0..<Suc rd]"
      define st2 where "st2 = scan_buf buf rd st1"
      have li: "last inner = st2" by (simp add: inner_def st2_def)
      have ne: "inner \<noteq> []" by (simp add: inner_def)
      show ?thesis
      proof (cases "binaryish st2 > offset st2 div 8")
        case trip: True
        have "scan_loop fp st log = (log @ [(offset st, rd)], Inr (Return ''binary''))"
          using trip unfolding st2_def st1_def by (simp add: U Inr)
        with less.prems have l: "label = ''binary''" by simp
        have "scan_states fp st = st # inner"
          using trip unfolding st2_def st1_def inner_def by (simp add: V Inr del: upt_Suc)
        then have "last (scan_states fp st) = st2" using li ne by simp
        with trip l show ?thesis by simp
      next
        case notrip: False
        have "scan_loop fp st log = scan_loop fp st2 (log @ [(offset st, rd)])"
          using notrip unfolding st2_def st1_def by (simp add: U Inr)
        then have run: "scan_loop fp st2 (log @ [(offset st, rd)]) = (log', Inr (Return label))"
          using less.prems by simp
        have dec: "fm_size fp - offset st2 < fm_size fp - offset st"
          using True pos by (simp add: st2_def st1_def)
        note IH = less.hyps [OF dec run]
        have "scan_states fp st = st # inner @ scan_states fp st2"
          using notrip unfolding st2_def st1_def inner_def by (simp add: V Inr del: upt_Suc)
        then have "last (scan_states fp st) = last (scan_states fp st2)"
          by (simp add: scan_states_nonempty)
        with IH show ?thesis by simp
      qed
    qed
  qed
qed

lemma counters_bounded:
  assumes "fm_size fp \<le> 100 * 1024 * 1024" and "s \<in> set (scan_states fp initial_state)"
  shows "offset s < 2 ^ 64 \<and> binaryish s < 2 ^ 64 \<and> utf8_errors (end_of_stream s) < 2 ^ 64"
proof -
  have "scan_inv fp s" using scan_states_inv [OF initial_inv, of fp] assms(2) by blast
  then have "offset s \<le> 104857600" "binaryish s \<le> 104857600" "utf8_errors s \<le> 209715200"
    using assms(1) by (simp_all add: scan_inv_def)
  moreover have "utf8_errors (end_of_stream s) \<le> utf8_errors s + 1"
    by (simp add: end_of_stream_def)
  ultimately show ?thesis by simp
qed

text \<open>
  C8: in the build with uchardet, every state of the scan of every file has
  \<open>binaryish \<le> offset\<close> and a pending continuation count between 0 and 3, and the
  error count never decreases: along the states of the scan, in order, and in the check
  after the loop.
\<close>

theorem C8_detection_state_invariant:
  "(\<forall>st \<in> set (scan_states fp initial_state).
      binaryish st \<le> offset st \<and> 0 \<le> utf8_cont_bytes st \<and> utf8_cont_bytes st \<le> 3) \<and>
   sorted (map utf8_errors (scan_states fp initial_state)) \<and>
   utf8_errors (last (scan_states fp initial_state))
     \<le> utf8_errors (end_of_stream (last (scan_states fp initial_state)))"
proof -
  note I = scan_states_inv [OF initial_inv, of fp]
  have "\<forall>st \<in> set (scan_states fp initial_state).
      binaryish st \<le> offset st \<and> 0 \<le> utf8_cont_bytes st \<and> utf8_cont_bytes st \<le> 3"
    using I by (simp add: scan_inv_def)
  moreover have "utf8_errors s \<le> utf8_errors (end_of_stream s)" for s
    by (simp add: end_of_stream_def)
  ultimately show ?thesis using I by blast
qed

theorem C8_detection_state_invariant_witness:
  "\<lparr>offset = 4, binaryish = 0, utf8_errors = 1, utf8_cont_bytes = 0,
      ud_data = [[0x09, 0xC3, 0xA9, 0x80]]\<rparr>
     \<in> set (scan_states (mapping_of [0x09, 0xC3, 0xA9, 0x80]) initial_state) \<and>
   map utf8_errors (scan_states (mapping_of [0x09, 0xC3, 0xA9, 0x80]) initial_state) =
     [0, 0, 0, 0, 0, 1, 1] \<and>
   sorted (map utf8_errors (scan_states (mapping_of [0x09, 0xC3, 0xA9, 0x80]) initial_state))"
proof -
  have tr: "scan_states (mapping_of [0x09, 0xC3, 0xA9, 0x80]) initial_state =
     [initial_state,
      \<lparr>offset = 4, binaryish = 0, utf8_errors = 0, utf8_cont_bytes = 0, ud_data = [[0x09, 0xC3, 0xA9, 0x80]]\<rparr>,
      \<lparr>offset = 4, binaryish = 0, utf8_errors = 0, utf8_cont_bytes = 0, ud_data = [[0x09, 0xC3, 0xA9, 0x80]]\<rparr>,
      \<lparr>offset = 4, binaryish = 0, utf8_errors = 0, utf8_cont_bytes = 1, ud_data = [[0x09, 0xC3, 0xA9, 0x80]]\<rparr>,
      \<lparr>offset = 4, binaryish = 0, utf8_errors = 0, utf8_cont_bytes = 0, ud_data = [[0x09, 0xC3, 0xA9, 0x80]]\<rparr>,
      \<lparr>offset = 4, binaryish = 0, utf8_errors = 1, utf8_cont_bytes = 0, ud_data = [[0x09, 0xC3, 0xA9, 0x80]]\<rparr>,
      \<lparr>offset = 4, binaryish = 0, utf8_errors = 1, utf8_cont_bytes = 0, ud_data = [[0x09, 0xC3, 0xA9, 0x80]]\<rparr>]"
    by (simp add: scan_states.simps mapping_of_def fm_size_def fm_read_def initial_state_def
        scan_buf_def scan_byte_def countl_one_def is_binaryish_def Let_def upt_rec)
  show ?thesis
    using C8_detection_state_invariant [of "mapping_of [0x09, 0xC3, 0xA9, 0x80]"]
    unfolding tr by (simp add: initial_state_def)
qed

subsection \<open>The UTF-8 automaton\<close>

lemma ascii_top_bit: "c < 0x80 \<Longrightarrow> \<not> bit (c :: byte) 7"
proof -
  assume "c < 0x80"
  then have "uint c < 128" by (simp add: word_less_alt)
  moreover have "0 \<le> uint c" by simp
  ultimately have "uint c div 2 ^ 7 = 0" by simp
  then have "\<not> bit (uint c) 7" by (simp add: bit_iff_odd)
  then show ?thesis by (simp add: bit_uint_iff)
qed

lemma countl_one_ascii: "c < 0x80 \<Longrightarrow> countl_one c = 0"
  by (simp add: countl_one_def ascii_top_bit)

lemma scan_byte_ascii:
  "c < 0x80 \<Longrightarrow> utf8_cont_bytes st = 0 \<Longrightarrow> utf8_part (scan_byte c st) = utf8_part st"
  by (simp add: scan_byte_def utf8_part_def countl_one_ascii Let_def)

lemma fold_scan_ascii:
  assumes "\<forall>c \<in> set bs. c < 0x80" and "utf8_cont_bytes st = 0"
  shows "utf8_part (fold scan_byte bs st) = utf8_part st"
  using assms
proof (induction bs arbitrary: st)
  case Nil
  then show ?case by simp
next
  case (Cons c bs)
  have 1: "utf8_part (scan_byte c st) = utf8_part st"
    using Cons.prems by (intro scan_byte_ascii) simp_all
  then have "utf8_cont_bytes (scan_byte c st) = 0"
    using Cons.prems(2) by (simp add: utf8_part_def)
  then have "utf8_part (fold scan_byte bs (scan_byte c st)) = utf8_part (scan_byte c st)"
    using Cons.prems(1) by (intro Cons.IH) simp_all
  with 1 show ?case by simp
qed




subsection \<open>The binary check\<close>

lemma next_state_binaryish:
  "consistent bs st \<Longrightarrow> offset st < length bs \<Longrightarrow>
   binaryish (next_state bs st) = control_count (take (offset (next_state bs st)) bs)"
  using next_state_consistent [of bs st] by (simp add: consistent_def)

text \<open>If the check trips after some window still ahead, the loop returns \<open>binary\<close> and
  reads nothing beyond that window.\<close>

lemma scan_loop_trips:
  assumes "consistent bs st" and "offset st < length bs" and "1 \<le> j"
    and "e = min (offset st + j * 4096) (length bs)"
    and "control_count (take e bs) > e div 8"
  shows "\<exists>new. scan_loop (mapping_of bs) st log = (log @ new, Inr (Return ''binary'')) \<and>
           (\<forall>(off, len) \<in> set new. off + len \<le> e)"
  using assms
proof (induction j arbitrary: st log)
  case 0
  then show ?case by simp
next
  case (Suc j)
  define rd where "rd = min 4096 (length bs - offset st)"
  define st2 where "st2 = next_state bs st"
  have o2: "offset st2 = offset st + rd" by (simp add: st2_def rd_def next_state_offset)
  have c2: "consistent bs st2" unfolding st2_def using Suc.prems(1,2) by (rule next_state_consistent)
  have b2: "binaryish st2 = control_count (take (offset st2) bs)"
    unfolding st2_def using Suc.prems(1,2) by (rule next_state_binaryish)
  have e_def: "e = min (offset st + (j * 4096 + 4096)) (length bs)"
    using Suc.prems(4) by simp
  have le: "offset st + rd \<le> e" using Suc.prems(2) unfolding rd_def e_def by linarith
  have step: "scan_loop (mapping_of bs) st log =
      (if binaryish st2 > offset st2 div 8 then (log @ [(offset st, rd)], Inr (Return ''binary''))
       else scan_loop (mapping_of bs) st2 (log @ [(offset st, rd)]))"
    unfolding st2_def rd_def using scan_loop_step [OF Suc.prems(2), of log] by (simp only: Let_def)
  show ?case
  proof (cases "binaryish st2 > offset st2 div 8")
    case True
    then have "scan_loop (mapping_of bs) st log = (log @ [(offset st, rd)], Inr (Return ''binary''))"
      by (simp only: step if_True)
    moreover have "\<forall>(off, len) \<in> set [(offset st, rd)]. off + len \<le> e" using le by simp
    ultimately show ?thesis by blast
  next
    case False
    then have run: "scan_loop (mapping_of bs) st log =
        scan_loop (mapping_of bs) st2 (log @ [(offset st, rd)])"
      by (simp only: step if_False)
    have ne: "offset st2 \<noteq> e" using False b2 Suc.prems(5) by auto
    then have lt: "offset st + rd < e" using le o2 by simp
    have e_le: "e \<le> length bs" using Suc.prems(4) by simp
    have full: "rd = 4096" using lt e_le unfolding rd_def by linarith
    have j1: "1 \<le> j"
    proof (rule ccontr)
      assume "\<not> 1 \<le> j"
      then have "j = 0" by simp
      then have "e = min (offset st + 4096) (length bs)" using e_def by simp
      with lt full show False by simp
    qed
    have lt2: "offset st2 < length bs" using lt e_le o2 by simp
    have e2: "e = min (offset st2 + j * 4096) (length bs)"
      unfolding e_def o2 full by (simp add: add.commute add.left_commute)
    from Suc.IH [OF c2 lt2 j1 e2 Suc.prems(5), of "log @ [(offset st, rd)]"]
    obtain new where n: "scan_loop (mapping_of bs) st2 (log @ [(offset st, rd)]) =
        ((log @ [(offset st, rd)]) @ new, Inr (Return ''binary''))"
      and b: "\<forall>(off, len) \<in> set new. off + len \<le> e"
      by blast
    have "scan_loop (mapping_of bs) st log = (log @ ((offset st, rd) # new), Inr (Return ''binary''))"
      using run n by simp
    moreover have "\<forall>(off, len) \<in> set ((offset st, rd) # new). off + len \<le> e"
      using b le by simp
    ultimately show ?thesis by blast
  qed
qed

lemma window_count_ge:
  assumes "m * 4096 < n" shows "Suc m \<le> window_count n"
proof -
  have "Suc m * 4096 \<le> n + 4095" using assms by simp
  then show ?thesis unfolding window_count_def by (simp add: less_eq_div_iff_mult_less_eq)
qed

text \<open>If the check trips after no window still ahead, the loop runs to the end of the
  file.\<close>

lemma scan_loop_no_trip:
  assumes "consistent bs st" and "offset st = window_end (length bs) m"
    and "\<forall>k. m < k \<and> k \<le> window_count (length bs) \<longrightarrow> \<not> trips_at bs k"
  shows "\<exists>log' st'. scan_loop (mapping_of bs) st log = (log', Inr (Done st'))"
  using assms
proof (induction "length bs - offset st" arbitrary: st log m rule: less_induct)
  case less
  show ?case
  proof (cases "offset st < length bs")
    case False
    then show ?thesis by (simp add: scan_loop_end)
  next
    case True
    define rd where "rd = min 4096 (length bs - offset st)"
    define st2 where "st2 = next_state bs st"
    have o2: "offset st2 = offset st + rd" by (simp add: st2_def rd_def next_state_offset)
    have c2: "consistent bs st2" unfolding st2_def using less.prems(1) True by (rule next_state_consistent)
    have b2: "binaryish st2 = control_count (take (offset st2) bs)"
      unfolding st2_def using less.prems(1) True by (rule next_state_binaryish)
    have om: "offset st = m * 4096" and mlt: "m * 4096 < length bs"
      using True less.prems(2) unfolding window_end_def by linarith+
    have w2: "offset st2 = window_end (length bs) (Suc m)"
      unfolding o2 om rd_def window_end_def using mlt by simp
    have "Suc m \<le> window_count (length bs)" using mlt by (rule window_count_ge)
    then have "\<not> trips_at bs (Suc m)" using less.prems(3) by simp
    then have notrip: "\<not> binaryish st2 > offset st2 div 8"
      unfolding trips_at_def w2 [symmetric] b2 .
    have step: "scan_loop (mapping_of bs) st log =
        (if binaryish st2 > offset st2 div 8 then (log @ [(offset st, rd)], Inr (Return ''binary''))
         else scan_loop (mapping_of bs) st2 (log @ [(offset st, rd)]))"
      unfolding st2_def rd_def using scan_loop_step [OF True, of log] by (simp only: Let_def)
    have run: "scan_loop (mapping_of bs) st log =
        scan_loop (mapping_of bs) st2 (log @ [(offset st, rd)])"
      using notrip by (simp only: step if_False)
    have pos: "0 < rd" using True unfolding rd_def by simp
    have dec: "length bs - offset st2 < length bs - offset st" using True pos o2 by simp
    have rest: "\<forall>k. Suc m < k \<and> k \<le> window_count (length bs) \<longrightarrow> \<not> trips_at bs k"
      using less.prems(3) by simp
    from less.hyps [OF dec c2 w2 rest, of "log @ [(offset st, rd)]"] run
    show ?thesis by simp
  qed
qed

lemma Detect_run_full:
  assumes "length bs \<le> 100 * 1024 * 1024"
    and "4 \<le> length bs \<longrightarrow> check_magic (take 4 bs) = None"
  shows "Detect_run True g (readable bs) =
           detect_full g (mapping_of bs) (if 4 \<le> length bs then [(0, 4)] else [])"
  using assms by (simp add: Detect_run_readable)

lemma detect_full_trips:
  assumes "1 \<le> k" and "k \<le> window_count (length bs)" and "trips_at bs k"
  shows "\<exists>new. detect_full g (mapping_of bs) log = (log @ new, Inr ''binary'') \<and>
           (\<forall>(off, len) \<in> set new. off + len \<le> window_end (length bs) k)"
proof -
  have "0 < window_count (length bs)" using assms(1,2) by simp
  then have pos: "offset initial_state < length bs"
    by (cases "length bs = 0") (simp_all add: window_count_def initial_state_def)
  have e: "window_end (length bs) k = min (offset initial_state + k * 4096) (length bs)"
    by (simp add: window_end_def initial_state_def)
  have t: "control_count (take (window_end (length bs) k) bs) > window_end (length bs) k div 8"
    using assms(3) by (simp add: trips_at_def)
  from scan_loop_trips [OF initial_consistent pos assms(1) e t, of log]
  obtain new where "scan_loop (mapping_of bs) initial_state log = (log @ new, Inr (Return ''binary''))"
    and "\<forall>(off, len) \<in> set new. off + len \<le> window_end (length bs) k"
    by blast
  then show ?thesis by (auto simp: detect_full_def)
qed

lemma detect_full_no_trip:
  assumes "\<not> binary_trips bs"
  shows "\<exists>log' st. scan_loop (mapping_of bs) initial_state log = (log', Inr (Done st)) \<and>
           consistent bs st \<and> offset st = length bs \<and>
           detect_full g (mapping_of bs) log =
             (log', Inr (if utf8_errors (end_of_stream st) < 5 then ''utf-8''
                         else g (ud_data (end_of_stream st))))"
proof -
  have w: "offset initial_state = window_end (length bs) 0"
    by (simp add: window_end_def initial_state_def)
  have nt: "\<forall>k. 0 < k \<and> k \<le> window_count (length bs) \<longrightarrow> \<not> trips_at bs k"
    using assms by (auto simp: binary_trips_def)
  from scan_loop_no_trip [OF initial_consistent w nt, of log]
  obtain log' st where run: "scan_loop (mapping_of bs) initial_state log = (log', Inr (Done st))"
    by blast
  from scan_loop_done [OF initial_consistent run]
  have "consistent bs st \<and> offset st = length bs" .
  moreover have "detect_full g (mapping_of bs) log =
             (log', Inr (if utf8_errors (end_of_stream st) < 5 then ''utf-8''
                         else g (ud_data (end_of_stream st))))"
    by (simp add: detect_full_def run Let_def)
  ultimately show ?thesis using run by blast
qed

text \<open>
  In the build with uchardet, on a file of at most 100 MiB on which \<open>check_magic\<close> finds
  nothing, if after some window \<open>k\<close> of the file the control-like bytes among the bytes
  processed so far are more than an eighth of them (integer division), the answer is
  \<open>binary\<close> and no read reaches beyond the end of window \<open>k\<close>, whatever the rest of the
  file holds.
\<close>

lemma binary_short_circuit_no_magic:
  assumes "length bs \<le> 100 * 1024 * 1024"
    and "4 \<le> length bs \<longrightarrow> check_magic (take 4 bs) = None"
    and "1 \<le> k" and "k \<le> window_count (length bs)" and "trips_at bs k"
  shows "Detect True guess (readable bs) = Inr ''binary'' \<and>
         (\<forall>(off, len) \<in> set (reads_issued True guess (readable bs)).
            off + len \<le> window_end (length bs) k)"
proof -
  let ?l0 = "if 4 \<le> length bs then [(0, 4)] else []"
  from detect_full_trips [OF assms(3,4,5), of guess ?l0]
  obtain new where d: "detect_full guess (mapping_of bs) ?l0 = (?l0 @ new, Inr ''binary'')"
    and b: "\<forall>(off, len) \<in> set new. off + len \<le> window_end (length bs) k"
    by blast
  have run: "Detect_run True guess (readable bs) = (?l0 @ new, Inr ''binary'')"
    using Detect_run_full [OF assms(1,2), of guess] d by simp
  have "4 \<le> window_end (length bs) k" if "4 \<le> length bs"
    using that assms(3) unfolding window_end_def by linarith
  then have "\<forall>(off, len) \<in> set ?l0. off + len \<le> window_end (length bs) k" by simp
  with b have "\<forall>(off, len) \<in> set (?l0 @ new). off + len \<le> window_end (length bs) k"
    unfolding set_append by blast
  then show ?thesis using run by (simp add: Detect_def reads_issued_def)
qed

lemma replicate_4: "replicate 4 x = [x, x, x, x]"
  by (simp add: eval_nat_numeral)

lemma binary_short_circuit_example:
  "check_magic (take 4 (replicate 600 0x01 @ replicate 4000 0x41)) = None \<and>
   trips_at (replicate 600 0x01 @ replicate 4000 0x41) 1 \<and>
   window_end (length (replicate 600 (0x01 :: byte) @ replicate 4000 0x41)) 1 = 4096 \<and>
   Detect True (fixed_guess ''x'') (readable (replicate 600 0x01 @ replicate 4000 0x41)) = Inr ''binary'' \<and>
   (4096, 504) \<notin> set (reads_issued True (fixed_guess ''x'')
        (readable (replicate 600 0x01 @ replicate 4000 0x41)))"
proof -
  let ?bs = "replicate 600 (0x01 :: byte) @ replicate 4000 0x41"
  have len: "length ?bs = 4600" by simp
  have "take 4 ?bs = [1, 1, 1, 1]" by (simp add: replicate_4)
  then have m: "check_magic (take 4 ?bs) = None" by (simp add: magic_defs strncmp_Cons)
  have we: "window_end (length ?bs) 1 = 4096" by (simp add: window_end_def)
  have "take 4096 ?bs = replicate 600 0x01 @ replicate 3496 0x41" by simp
  then have "control_count (take 4096 ?bs) = 600"
    by (simp add: control_count_def is_binaryish_def)
  then have t: "trips_at ?bs 1" unfolding trips_at_def we by simp
  have wc: "1 \<le> window_count (length ?bs)" by (simp add: window_count_def)
  have "length ?bs \<le> 100 * 1024 * 1024" by simp
  from binary_short_circuit_no_magic [OF this _ _ wc t, of "fixed_guess ''x''"] m
  have d: "Detect True (fixed_guess ''x'') (readable ?bs) = Inr ''binary''"
    and b: "\<forall>(off, len) \<in> set (reads_issued True (fixed_guess ''x'') (readable ?bs)).
            off + len \<le> window_end (length ?bs) 1"
    by simp_all
  have "(4096, 504) \<notin> set (reads_issued True (fixed_guess ''x'') (readable ?bs))"
    using b unfolding we by auto
  with m t we d show ?thesis by blast
qed

text \<open>In terms of the spec's signatures: the same on every file that does not start with 00.\<close>

lemma binary_short_circuit_spec:
  assumes "length bs \<le> 100 * 1024 * 1024"
    and "4 \<le> length bs \<longrightarrow> spec_signature (take 4 bs) = None \<and> hd bs \<noteq> 0"
    and "1 \<le> k" and "k \<le> window_count (length bs)" and "trips_at bs k"
  shows "Detect True guess (readable bs) = Inr ''binary'' \<and>
         (\<forall>(off, len) \<in> set (reads_issued True guess (readable bs)).
            off + len \<le> window_end (length bs) k)"
proof -
  have "4 \<le> length bs \<longrightarrow> check_magic (take 4 bs) = None"
    using assms(2) no_magic_iff [of bs] by blast
  from binary_short_circuit_no_magic [OF assms(1) this assms(3,4,5), of guess] show ?thesis .
qed

text \<open>
  C5: the property fails on the file 00 00 00 00. The file carries none of the six
  signatures and is far below 100 MiB; after its only window all 4 bytes processed are
  control-like, more than 4 div 8 = 0, so the build with uchardet is to answer
  \<open>binary\<close>. The comparison with the UTF-32BE literal (line 33) stops at the NUL the two
  strings share, and the answer is \<open>utf-32be\<close>.
\<close>

theorem C5_leading_nul:
  "spec_signature [0x00, 0x00, 0x00, 0x00] = None \<and>
   length [0x00, 0x00, 0x00, 0x00 :: byte] \<le> 100 * 1024 * 1024 \<and>
   window_count (length [0x00, 0x00, 0x00, 0x00 :: byte]) = 1 \<and>
   trips_at [0x00, 0x00, 0x00, 0x00] 1 \<and>
   Detect True guess (readable [0x00, 0x00, 0x00, 0x00]) = Inr ''utf-32be''"
proof -
  have "spec_signature [0x00, 0x00, 0x00, 0x00] = None"
    unfolding spec_signature_def take_3_Cons take_2_Cons take_4_Cons by simp
  moreover have "trips_at [0x00, 0x00, 0x00, 0x00] 1"
    by (simp add: trips_at_def window_end_def control_count_def is_binaryish_def)
  moreover have "Detect True guess (readable [0x00, 0x00, 0x00, 0x00]) = Inr ''utf-32be''"
    by (simp add: Detect_def Detect_run_readable check_magic_leading_nul)
  ultimately show ?thesis by (simp add: window_count_def)
qed

subsection \<open>All-ASCII files\<close>

text \<open>
  C2 as the spec states it fails: the four ASCII bytes ESC [ 2 J match no signature, and
  the one control byte among four makes the answer \<open>binary\<close> in both builds.
\<close>

theorem C2_ascii_counterexample:
  "(0x1B :: byte) < 0x80 \<and> (0x5B :: byte) < 0x80 \<and> (0x32 :: byte) < 0x80 \<and> (0x4A :: byte) < 0x80 \<and>
   check_magic [0x1B, 0x5B, 0x32, 0x4A] = None \<and>
   Detect True (fixed_guess ''x'') (readable [0x1B, 0x5B, 0x32, 0x4A]) = Inr ''binary'' \<and>
   Detect False (fixed_guess ''x'') (readable [0x1B, 0x5B, 0x32, 0x4A]) = Inr ''binary''"
proof -
  have m: "check_magic [0x1B, 0x5B, 0x32, 0x4A] = None"
    by (simp add: magic_defs strncmp_Cons)
  have "Detect True (fixed_guess ''x'') (readable [0x1B, 0x5B, 0x32, 0x4A]) = Inr ''binary''"
    by (simp add: Detect_def Detect_run_readable m detect_full_def scan_loop.simps
        initial_state_def mapping_of_def fm_size_def fm_read_def scan_buf_def scan_byte_def
        countl_one_def is_binaryish_def Let_def upt_rec)
  moreover have "Detect False (fixed_guess ''x'') (readable [0x1B, 0x5B, 0x32, 0x4A]) = Inr ''binary''"
    by (simp add: Detect_def Detect_run_readable m detect_minimal_readable control_count_def
        is_binaryish_def)
  ultimately show ?thesis using m by simp
qed

text \<open>
  C2, amended: an all-ASCII file of at most 100 MiB on which the signature check finds
  nothing is \<open>utf-8\<close> unless the binary check trips, and \<open>binary\<close> if it does: after
  some window in the build with uchardet, after the first window in the build without.
\<close>

theorem C2_ascii_amended:
  assumes "\<forall>b \<in> set bs. b < 0x80"
    and "length bs \<le> 100 * 1024 * 1024"
    and "4 \<le> length bs \<longrightarrow> check_magic (take 4 bs) = None"
  shows "Detect True guess (readable bs) = Inr (if binary_trips bs then ''binary'' else ''utf-8'') \<and>
         Detect False guess (readable bs) = Inr (if trips_at bs 1 then ''binary'' else ''utf-8'')"
proof -
  let ?l0 = "if 4 \<le> length bs then [(0, 4)] else []"
  have full: "Detect True guess (readable bs) = Inr (if binary_trips bs then ''binary'' else ''utf-8'')"
  proof (cases "binary_trips bs")
    case True
    then obtain k where k: "1 \<le> k" "k \<le> window_count (length bs)" "trips_at bs k"
      by (auto simp: binary_trips_def)
    from detect_full_trips [OF k, of guess ?l0]
    obtain new where "detect_full guess (mapping_of bs) ?l0 = (?l0 @ new, Inr ''binary'')"
      by blast
    then have "Detect_run True guess (readable bs) = (?l0 @ new, Inr ''binary'')"
      using Detect_run_full [OF assms(2,3), of guess] by simp
    with True show ?thesis by (simp add: Detect_def)
  next
    case False
    from detect_full_no_trip [OF False, of ?l0 guess]
    obtain log' st where c: "consistent bs st" and o: "offset st = length bs"
      and d: "detect_full guess (mapping_of bs) ?l0 =
             (log', Inr (if utf8_errors (end_of_stream st) < 5 then ''utf-8''
                         else guess (ud_data (end_of_stream st))))"
      by blast
    have "utf8_part st = utf8_part (fold scan_byte bs initial_state)"
      using c o by (simp add: consistent_def)
    also have "\<dots> = utf8_part initial_state"
      using assms(1) by (intro fold_scan_ascii) (simp_all add: initial_state_def)
    finally have "utf8_cont_bytes st = 0" "utf8_errors st = 0"
      by (simp_all add: utf8_part_def initial_state_def)
    then have "utf8_errors (end_of_stream st) = 0" by (simp add: end_of_stream_def)
    with d have "detect_full guess (mapping_of bs) ?l0 = (log', Inr ''utf-8'')" by simp
    then have "Detect_run True guess (readable bs) = (log', Inr ''utf-8'')"
      using Detect_run_full [OF assms(2,3), of guess] by simp
    with False show ?thesis by (simp add: Detect_def)
  qed
  have tk: "take (min 4096 (length bs)) bs = take 4096 bs" by (simp add: min_def)
  have "Detect_run False guess (readable bs) =
      (?l0 @ [(0, min 4096 (length bs))],
       Inr (if control_count (take 4096 bs) > min 4096 (length bs) div 8
            then ''binary'' else ''utf-8''))"
    using assms(2,3) by (simp add: Detect_run_readable detect_minimal_readable)
  then have "Detect False guess (readable bs) = Inr (if trips_at bs 1 then ''binary'' else ''utf-8'')"
    by (simp add: Detect_def trips_at_def window_end_def tk)
  with full show ?thesis by simp
qed

theorem C2_ascii_amended_witness:
  "check_magic (take 4 [0x61, 0x62, 0x63, 0x64, 0x0A]) = None \<and>
   \<not> binary_trips [0x61, 0x62, 0x63, 0x64, 0x0A] \<and>
   Detect True (fixed_guess ''x'') (readable [0x61, 0x62, 0x63, 0x64, 0x0A]) = Inr ''utf-8'' \<and>
   Detect False (fixed_guess ''x'') (readable [0x61, 0x62, 0x63, 0x64, 0x0A]) = Inr ''utf-8'' \<and>
   binary_trips [0x1B, 0x5B, 0x32, 0x4A] \<and>
   Detect True (fixed_guess ''x'') (readable [0x1B, 0x5B, 0x32, 0x4A]) = Inr ''binary''"
proof -
  have m1: "check_magic (take 4 [0x61, 0x62, 0x63, 0x64, 0x0A]) = None"
    and m2: "check_magic (take 4 [0x1B, 0x5B, 0x32, 0x4A]) = None"
    by (simp_all add: magic_defs strncmp_Cons)
  have t1: "\<not> trips_at [0x61, 0x62, 0x63, 0x64, 0x0A] 1"
    and t2: "trips_at [0x1B, 0x5B, 0x32, 0x4A] 1"
    by (simp_all add: trips_at_def window_end_def control_count_def is_binaryish_def)
  have b1: "\<not> binary_trips [0x61, 0x62, 0x63, 0x64, 0x0A]"
    and b2: "binary_trips [0x1B, 0x5B, 0x32, 0x4A]"
    using t1 t2 by (simp_all add: binary_trips_def window_count_def)
  show ?thesis
    using m1 m2 t1 t2 b1 b2
      C2_ascii_amended [of "[0x61, 0x62, 0x63, 0x64, 0x0A]" "fixed_guess ''x''"]
      C2_ascii_amended [of "[0x1B, 0x5B, 0x32, 0x4A]" "fixed_guess ''x''"]
    by simp
qed

subsection \<open>Sequences across a window boundary\<close>







end
